theory Spec2Isabelle
  imports Main
begin

section \<open>Byte strings and the Go string primitives the program calls\<close>

text \<open>
  A Go \<^verbatim>\<open>string\<close> is a sequence of bytes, so it is modelled as \<^typ>\<open>string\<close>
  (a list of \<^typ>\<open>char\<close>, each one byte). Indices are Go \<^verbatim>\<open>int\<close>s, modelled as
  \<^typ>\<open>int\<close> so that the \<^verbatim>\<open>-1\<close> of a failed search is a value of the model.
\<close>

definition lf :: char where
  "lf = CHR 0x0A"

definition cr :: char where
  "cr = CHR 0x0D"

definition dquote :: char where
  "dquote = CHR 0x22"

text \<open>\<^verbatim>\<open>strings.HasPrefix\<close> and \<^verbatim>\<open>strings.HasSuffix\<close>.\<close>

definition hasPrefix :: "string \<Rightarrow> string \<Rightarrow> bool" where
  "hasPrefix s p = (take (length p) s = p)"

definition hasSuffix :: "string \<Rightarrow> string \<Rightarrow> bool" where
  "hasSuffix s p = (length p \<le> length s \<and> drop (length s - length p) s = p)"

text \<open>\<^verbatim>\<open>strings.Contains(s, sub)\<close>: some suffix of \<open>s\<close> starts with \<open>sub\<close>.\<close>

fun containsStr :: "string \<Rightarrow> string \<Rightarrow> bool" where
  "containsStr [] sub = (sub = [])"
| "containsStr (c # cs) sub = (hasPrefix (c # cs) sub \<or> containsStr cs sub)"

text \<open>
  \<^verbatim>\<open>strings.Index(s, "\"")\<close> and \<^verbatim>\<open>strings.LastIndex(s, "\"")\<close> for a one-byte
  needle: the first (last) position of the byte, or \<open>-1\<close>. Both are written as a pass
  over the bytes that carries the position; the second one also carries the last position
  at which the byte was seen.
\<close>

fun indexFrom :: "string \<Rightarrow> char \<Rightarrow> int \<Rightarrow> int" where
  "indexFrom [] c i = - 1"
| "indexFrom (x # xs) c i = (if x = c then i else indexFrom xs c (i + 1))"

definition indexByte :: "string \<Rightarrow> char \<Rightarrow> int" where
  "indexByte s c = indexFrom s c 0"

fun lastIndexFrom :: "string \<Rightarrow> char \<Rightarrow> int \<Rightarrow> int \<Rightarrow> int" where
  "lastIndexFrom [] c i found = found"
| "lastIndexFrom (x # xs) c i found =
     lastIndexFrom xs c (i + 1) (if x = c then i else found)"

definition lastIndexByte :: "string \<Rightarrow> char \<Rightarrow> int" where
  "lastIndexByte s c = lastIndexFrom s c 0 (- 1)"

text \<open>
  The slice expression \<^verbatim>\<open>s[i:j]\<close>. Go panics unless \<open>0 \<le> i \<le> j \<le> len(s)\<close>; every use in
  the program is guarded so that the bounds hold, and the model is only read there.
\<close>

definition slice :: "string \<Rightarrow> int \<Rightarrow> int \<Rightarrow> string" where
  "slice s i j = take (nat (j - i)) (drop (nat i) s)"

text \<open>
  \<^verbatim>\<open>strings.Trim(s, "\"")\<close> with a one-byte cutset: the byte is removed from the right
  end, then from the left end, as long as it is there.
\<close>

definition trimByte :: "string \<Rightarrow> char \<Rightarrow> string" where
  "trimByte s c = dropWhile (\<lambda>x. x = c) (rev (dropWhile (\<lambda>x. x = c) (rev s)))"

text \<open>
  \<^verbatim>\<open>strings.TrimSpace\<close> removes every leading and trailing white-space code point, as
  \<^verbatim>\<open>unicode.IsSpace\<close> defines them. On bytes these are the six ASCII characters tab, line
  feed, vertical tab, form feed, carriage return and space, and the UTF-8 encodings of
  U+0085, U+00A0, U+1680, U+2000 to U+200A, U+2028, U+2029, U+202F, U+205F and U+3000.
  No encoding in the list is a prefix or a suffix of another one.
\<close>

definition spaceRunes :: "string list" where
  "spaceRunes =
    [[CHR 0x09], [CHR 0x0A], [CHR 0x0B], [CHR 0x0C], [CHR 0x0D], [CHR 0x20],
     [CHR 0xC2, CHR 0x85], [CHR 0xC2, CHR 0xA0],
     [CHR 0xE1, CHR 0x9A, CHR 0x80],
     [CHR 0xE2, CHR 0x80, CHR 0x80], [CHR 0xE2, CHR 0x80, CHR 0x81],
     [CHR 0xE2, CHR 0x80, CHR 0x82], [CHR 0xE2, CHR 0x80, CHR 0x83],
     [CHR 0xE2, CHR 0x80, CHR 0x84], [CHR 0xE2, CHR 0x80, CHR 0x85],
     [CHR 0xE2, CHR 0x80, CHR 0x86], [CHR 0xE2, CHR 0x80, CHR 0x87],
     [CHR 0xE2, CHR 0x80, CHR 0x88], [CHR 0xE2, CHR 0x80, CHR 0x89],
     [CHR 0xE2, CHR 0x80, CHR 0x8A],
     [CHR 0xE2, CHR 0x80, CHR 0xA8], [CHR 0xE2, CHR 0x80, CHR 0xA9],
     [CHR 0xE2, CHR 0x80, CHR 0xAF],
     [CHR 0xE2, CHR 0x81, CHR 0x9F],
     [CHR 0xE3, CHR 0x80, CHR 0x80]]"

definition leadingSpace :: "string \<Rightarrow> nat" where
  "leadingSpace s = (case find (hasPrefix s) spaceRunes of None \<Rightarrow> 0 | Some p \<Rightarrow> length p)"

definition trailingSpace :: "string \<Rightarrow> nat" where
  "trailingSpace s = (case find (hasSuffix s) spaceRunes of None \<Rightarrow> 0 | Some p \<Rightarrow> length p)"

function trimLeftSpace :: "string \<Rightarrow> string" where
  "trimLeftSpace s =
     (if leadingSpace s = 0 then s else trimLeftSpace (drop (leadingSpace s) s))"
  by pat_completeness auto
termination
proof (relation "measure length")
  show "wf (measure length)" by simp
next
  fix s :: string
  assume pos: "leadingSpace s \<noteq> 0"
  then obtain p where "find (hasPrefix s) spaceRunes = Some p"
    by (auto simp: leadingSpace_def split: option.splits)
  then have "hasPrefix s p" and "p \<noteq> []"
    by (auto simp: find_Some_iff spaceRunes_def nth_Cons' split: if_splits)
  then have "s \<noteq> []"
    by (auto simp: hasPrefix_def)
  with pos show "(drop (leadingSpace s) s, s) \<in> measure length"
    by simp
qed

function trimRightSpace :: "string \<Rightarrow> string" where
  "trimRightSpace s =
     (if trailingSpace s = 0 then s else trimRightSpace (take (length s - trailingSpace s) s))"
  by pat_completeness auto
termination
proof (relation "measure length")
  show "wf (measure length)" by simp
next
  fix s :: string
  assume pos: "trailingSpace s \<noteq> 0"
  then obtain p where "find (hasSuffix s) spaceRunes = Some p"
    by (auto simp: trailingSpace_def split: option.splits)
  then have "hasSuffix s p" and "p \<noteq> []"
    by (auto simp: find_Some_iff spaceRunes_def nth_Cons' split: if_splits)
  then have "s \<noteq> []"
    by (auto simp: hasSuffix_def)
  with pos show "(take (length s - trailingSpace s) s, s) \<in> measure length"
    by simp
qed

definition trimSpace :: "string \<Rightarrow> string" where
  "trimSpace s = trimRightSpace (trimLeftSpace s)"

section \<open>The line scanner\<close>

text \<open>
  \<^verbatim>\<open>bufio.Scanner\<close> with its default split function \<^verbatim>\<open>ScanLines\<close>: the input is cut
  at every line feed, a last line without a line feed is a token when it is not empty, and
  one trailing carriage return is dropped from each token. \<open>scanTokens\<close> carries the bytes
  of the line being read in its second argument.
\<close>

fun scanTokens :: "string \<Rightarrow> string \<Rightarrow> string list" where
  "scanTokens [] cur = (if cur = [] then [] else [cur])"
| "scanTokens (c # cs) cur =
     (if c = lf then cur # scanTokens cs [] else scanTokens cs (cur @ [c]))"

definition dropCR :: "string \<Rightarrow> string" where
  "dropCR s = (if s \<noteq> [] \<and> last s = cr then butlast s else s)"

definition scanLines :: "string \<Rightarrow> string list" where
  "scanLines data = map dropCR (scanTokens data [])"

text \<open>
  The scanner's buffer grows to at most \<^verbatim>\<open>bufio.MaxScanTokenSize\<close> bytes. A line that
  does not fit (its bytes before the line feed number 65536 or more) stops the scan and
  \<^verbatim>\<open>scanner.Err()\<close> reports \<^verbatim>\<open>ErrTooLong\<close>.
\<close>

definition maxScanTokenSize :: nat where
  "maxScanTokenSize = 64 * 1024"

definition scanErr :: "string \<Rightarrow> bool" where
  "scanErr data = list_ex (\<lambda>l. maxScanTokenSize \<le> length l) (scanTokens data [])"

section \<open>Files and errors\<close>

text \<open>
  What the program can observe of a path: nothing is there, a file is there that cannot be
  opened, or a file with its bytes. The file system is passed explicitly.
\<close>

datatype fileState = NotExist | Unreadable | Contents string

type_synonym fileSystem = "string \<Rightarrow> fileState"

datatype error =
    OpenProtoFile
  | ParseProto
  | ReadProtoFile
  | OpenTOMLFile
  | ReadTOMLFile
  | LoadExistingTOML error
  | WriteTOMLFile

text \<open>Reading a Go \<^verbatim>\<open>map[string]string\<close> at a missing key gives the empty string.\<close>

definition goLookup :: "(string \<rightharpoonup> string) \<Rightarrow> string \<Rightarrow> string" where
  "goLookup m k = (case m k of None \<Rightarrow> [] | Some v \<Rightarrow> v)"

section \<open>The catalog reader: \<^verbatim>\<open>loadExistingTOML\<close>\<close>

text \<open>
  The scanning loop of \<^verbatim>\<open>loadExistingTOML\<close>, with the variable \<^verbatim>\<open>currentKey\<close> and the
  map \<^verbatim>\<open>entries\<close> as arguments.
\<close>

fun tomlLoop :: "string list \<Rightarrow> string \<Rightarrow> (string \<rightharpoonup> string) \<Rightarrow> (string \<rightharpoonup> string)" where
  "tomlLoop [] currentKey entries = entries"
| "tomlLoop (text # rest) currentKey entries =
     (if hasPrefix (trimSpace text) ''['' \<and> hasSuffix (trimSpace text) '']''
      then tomlLoop rest
             (slice (trimSpace text) 1 (int (length (trimSpace text)) - 1)) entries
      else if hasPrefix (trimSpace text) ''other = ''
      then (if currentKey \<noteq> []
            then tomlLoop rest currentKey
                   (entries(currentKey \<mapsto>
                      trimByte (drop (length ''other = '') (trimSpace text)) dquote))
            else tomlLoop rest currentKey entries)
      else tomlLoop rest currentKey entries)"

definition loadExistingTOML :: "fileSystem \<Rightarrow> string \<Rightarrow> error + (string \<rightharpoonup> string)" where
  "loadExistingTOML fs filePath =
     (case fs filePath of
        NotExist \<Rightarrow> Inr Map.empty
      | Unreadable \<Rightarrow> Inl OpenTOMLFile
      | Contents data \<Rightarrow>
          if scanErr data then Inl ReadTOMLFile
          else Inr (tomlLoop (scanLines data) [] Map.empty))"

section \<open>The catalog writer: \<^verbatim>\<open>generateTOML\<close>\<close>

text \<open>The first loop of \<^verbatim>\<open>generateTOML\<close> fills \<^verbatim>\<open>entryMap\<close>.\<close>

fun mergeLoop ::
  "string list \<Rightarrow> (string \<rightharpoonup> string) \<Rightarrow> (string \<rightharpoonup> string) \<Rightarrow> (string \<rightharpoonup> string)" where
  "mergeLoop [] existingEntries entryMap = entryMap"
| "mergeLoop (entry # rest) existingEntries entryMap =
     (case existingEntries entry of
        Some val \<Rightarrow> mergeLoop rest existingEntries (entryMap(entry \<mapsto> val))
      | None \<Rightarrow> mergeLoop rest existingEntries (entryMap(entry \<mapsto> [])))"

text \<open>\<^verbatim>\<open>fmt.Sprintf("[%s]\nother = \"%s\"\n\n", entry, existingMessage)\<close>\<close>

definition sprintfBlock :: "string \<Rightarrow> string \<Rightarrow> string" where
  "sprintfBlock entry existingMessage =
     ''['' @ entry @ '']'' @ [lf] @ ''other = '' @ [dquote] @ existingMessage @ [dquote, lf, lf]"

text \<open>The second loop appends one block per entry to the buffer.\<close>

fun renderLoop ::
  "string list \<Rightarrow> (string \<rightharpoonup> string) \<Rightarrow> (string \<rightharpoonup> string) \<Rightarrow> string \<Rightarrow> string" where
  "renderLoop [] entryMap messages buffer = buffer"
| "renderLoop (entry # rest) entryMap messages buffer =
     renderLoop rest entryMap messages
       (buffer @ sprintfBlock entry
          (if goLookup entryMap entry = [] then goLookup messages entry
           else goLookup entryMap entry))"

text \<open>
  \<^verbatim>\<open>generateTOML\<close>: \<open>canWrite\<close> says for which paths \<^verbatim>\<open>os.WriteFile\<close> succeeds; the
  result is the error or the file system after the write.
\<close>

definition generateTOML ::
  "(string \<Rightarrow> bool) \<Rightarrow> string list \<Rightarrow> (string \<rightharpoonup> string) \<Rightarrow> string \<Rightarrow> fileSystem
     \<Rightarrow> error + fileSystem" where
  "generateTOML canWrite entries messages filePath fs =
     (case loadExistingTOML fs filePath of
        Inl err \<Rightarrow> Inl (LoadExistingTOML err)
      | Inr existingEntries \<Rightarrow>
          if canWrite filePath
          then Inr (fs(filePath :=
                 Contents (renderLoop entries
                   (mergeLoop entries existingEntries Map.empty) messages [])))
          else Inl WriteTOMLFile)"

section \<open>The key extractor: \<^verbatim>\<open>parseProto\<close>\<close>

text \<open>
  The declaration tree comes from the external parser \<^verbatim>\<open>github.com/emicklei/proto\<close>.
  Of its \<^verbatim>\<open>Visitee\<close>s the program tells three kinds apart: an \<^verbatim>\<open>*proto.Enum\<close> with its
  name and elements, an \<^verbatim>\<open>*proto.EnumField\<close> with its name, and anything else. Some of
  the other elements (messages, services, oneofs, groups) hold elements of their own, which
  \<^verbatim>\<open>proto.Walk\<close> visits too; an enum is such a container as well.
\<close>

datatype visitee =
    Enum string "visitee list"
  | EnumField string
  | Container "visitee list"
  | Leaf

text \<open>The loop over \<^verbatim>\<open>e.Elements\<close>: the name of every enum field is appended.\<close>

fun appendFields :: "visitee list \<Rightarrow> string list \<Rightarrow> string list" where
  "appendFields [] entries = entries"
| "appendFields (EnumField name # rest) entries = appendFields rest (entries @ [name])"
| "appendFields (Enum name elements # rest) entries = appendFields rest entries"
| "appendFields (Container elements # rest) entries = appendFields rest entries"
| "appendFields (Leaf # rest) entries = appendFields rest entries"

text \<open>The function passed to \<^verbatim>\<open>proto.WithEnum\<close>, with the two early returns.\<close>

definition enumHandler ::
  "string \<Rightarrow> string \<Rightarrow> string \<Rightarrow> visitee list \<Rightarrow> string list \<Rightarrow> string list" where
  "enumHandler enumPrefix enumSuffix name elements entries =
     (if enumPrefix \<noteq> [] \<and> \<not> hasPrefix name enumPrefix then entries
      else if enumSuffix \<noteq> [] \<and> \<not> hasSuffix name enumSuffix then entries
      else appendFields elements entries)"

text \<open>
  \<^verbatim>\<open>proto.Walk\<close>: every element of a container is handed to the handler and then, when it
  is a container itself, walked in turn (pre-order).
\<close>

fun walk :: "string \<Rightarrow> string \<Rightarrow> visitee list \<Rightarrow> string list \<Rightarrow> string list"
  and visit :: "string \<Rightarrow> string \<Rightarrow> visitee \<Rightarrow> string list \<Rightarrow> string list" where
  "walk enumPrefix enumSuffix [] entries = entries"
| "walk enumPrefix enumSuffix (v # rest) entries =
     walk enumPrefix enumSuffix rest (visit enumPrefix enumSuffix v entries)"
| "visit enumPrefix enumSuffix (Enum name elements) entries =
     walk enumPrefix enumSuffix elements
       (enumHandler enumPrefix enumSuffix name elements entries)"
| "visit enumPrefix enumSuffix (Container elements) entries =
     walk enumPrefix enumSuffix elements entries"
| "visit enumPrefix enumSuffix (EnumField name) entries = entries"
| "visit enumPrefix enumSuffix Leaf entries = entries"

text \<open>The marker of a validation-rule block.\<close>

definition celMarker :: string where
  "celMarker = ''(buf.validate.field).cel''"

text \<open>
  The value between the first and the last double quote of a line, as both the \<^verbatim>\<open>id:\<close>
  and the \<^verbatim>\<open>message:\<close> branch compute it: \<^verbatim>\<open>start := strings.Index(l, "\"") + 1\<close>,
  \<^verbatim>\<open>end := strings.LastIndex(l, "\"")\<close>, and the slice \<^verbatim>\<open>l[start:end]\<close> is taken when
  \<^verbatim>\<open>start > 0 && end > start\<close>; otherwise the variable keeps its value.
\<close>

definition quotedValue :: "string \<Rightarrow> string option" where
  "quotedValue nextLine =
     (if indexByte nextLine dquote + 1 > 0
         \<and> lastIndexByte nextLine dquote > indexByte nextLine dquote + 1
      then Some (slice nextLine (indexByte nextLine dquote + 1) (lastIndexByte nextLine dquote))
      else None)"

definition closesBlock :: "string \<Rightarrow> bool" where
  "closesBlock nextLine = (hasPrefix nextLine ''}];'' \<or> hasPrefix nextLine ''},'')"

text \<open>
  The second pass: two nested loops that draw from one scanner. \<open>scanOuter\<close> is the outer
  loop, \<open>scanInner\<close> the inner one with its variables \<^verbatim>\<open>id\<close> (here \<open>ident\<close>) and
  \<^verbatim>\<open>message\<close>. When the lines run out inside the inner loop, the outer loop finds the
  scanner exhausted and ends too.
\<close>

fun scanOuter ::
    "string list \<Rightarrow> string list \<Rightarrow> (string \<rightharpoonup> string) \<Rightarrow> string list \<times> (string \<rightharpoonup> string)"
  and scanInner ::
    "string list \<Rightarrow> string \<Rightarrow> string \<Rightarrow> string list \<Rightarrow> (string \<rightharpoonup> string)
       \<Rightarrow> string list \<times> (string \<rightharpoonup> string)" where
  "scanOuter [] entries messages = (entries, messages)"
| "scanOuter (line # rest) entries messages =
     (if containsStr line celMarker then scanInner rest [] [] entries messages
      else scanOuter rest entries messages)"
| "scanInner [] ident message entries messages = (entries, messages)"
| "scanInner (text # rest) ident message entries messages =
     (if hasPrefix (trimSpace text) ''id:'' then
        (case quotedValue (trimSpace text) of
           Some v \<Rightarrow> scanInner rest v message (entries @ [v]) messages
         | None \<Rightarrow> scanInner rest ident message entries messages)
      else if hasPrefix (trimSpace text) ''message:'' then
        (case quotedValue (trimSpace text) of
           Some v \<Rightarrow> scanInner rest ident v entries messages
         | None \<Rightarrow> scanInner rest ident message entries messages)
      else if closesBlock (trimSpace text) then
        scanOuter rest entries
          (if ident \<noteq> [] then messages(ident \<mapsto> message) else messages)
      else scanInner rest ident message entries messages)"

text \<open>
  \<^verbatim>\<open>parseProto\<close>. The parser is a parameter: it maps the bytes of the file to the top-level
  elements of the declaration tree, or to \<open>None\<close> when it reports an error.
\<close>

definition parseProto ::
  "(string \<Rightarrow> visitee list option) \<Rightarrow> fileSystem \<Rightarrow> string \<Rightarrow> string \<Rightarrow> string
     \<Rightarrow> error + (string list \<times> (string \<rightharpoonup> string))" where
  "parseProto parser fs filePath enumPrefix enumSuffix =
     (case fs filePath of
        NotExist \<Rightarrow> Inl OpenProtoFile
      | Unreadable \<Rightarrow> Inl OpenProtoFile
      | Contents data \<Rightarrow>
          (case parser data of
             None \<Rightarrow> Inl ParseProto
           | Some definition \<Rightarrow>
               if scanErr data then Inl ReadProtoFile
               else Inr (scanOuter (scanLines data)
                           (walk enumPrefix enumSuffix definition []) Map.empty)))"

section \<open>The aggregation loop of \<^verbatim>\<open>main\<close>\<close>

text \<open>
  The state of the loop: \<^verbatim>\<open>allEntries\<close>, \<^verbatim>\<open>allMessages\<close> and \<^verbatim>\<open>seenEntries\<close>. Reading
  the \<^verbatim>\<open>map[string]bool\<close> at a missing key gives \<^verbatim>\<open>false\<close>.
\<close>

type_synonym collected = "string list \<times> (string \<rightharpoonup> string) \<times> (string \<rightharpoonup> bool)"

definition goLookupBool :: "(string \<rightharpoonup> bool) \<Rightarrow> string \<Rightarrow> bool" where
  "goLookupBool m k = (case m k of None \<Rightarrow> False | Some b \<Rightarrow> b)"

fun addEntries :: "string list \<Rightarrow> (string \<rightharpoonup> string) \<Rightarrow> collected \<Rightarrow> collected" where
  "addEntries [] messages acc = acc"
| "addEntries (entry # rest) messages (allEntries, allMessages, seenEntries) =
     (if \<not> goLookupBool seenEntries entry
      then addEntries rest messages
             (allEntries @ [entry],
              allMessages(entry \<mapsto> goLookup messages entry),
              seenEntries(entry \<mapsto> True))
      else addEntries rest messages (allEntries, allMessages, seenEntries))"

fun collectLoop ::
  "(string \<Rightarrow> visitee list option) \<Rightarrow> fileSystem \<Rightarrow> string \<Rightarrow> string \<Rightarrow> string list
     \<Rightarrow> collected \<Rightarrow> collected" where
  "collectLoop parser fs enumPrefix enumSuffix [] acc = acc"
| "collectLoop parser fs enumPrefix enumSuffix (protoFile # rest) acc =
     (case parseProto parser fs protoFile enumPrefix enumSuffix of
        Inl err \<Rightarrow> collectLoop parser fs enumPrefix enumSuffix rest acc
      | Inr (entries, messages) \<Rightarrow>
          collectLoop parser fs enumPrefix enumSuffix rest (addEntries entries messages acc))"

text \<open>The loop starts from an empty list and two empty maps.\<close>

definition collectEntries ::
  "(string \<Rightarrow> visitee list option) \<Rightarrow> fileSystem \<Rightarrow> string \<Rightarrow> string \<Rightarrow> string list
     \<Rightarrow> collected" where
  "collectEntries parser fs enumPrefix enumSuffix protoFiles =
     collectLoop parser fs enumPrefix enumSuffix protoFiles ([], Map.empty, Map.empty)"

section \<open>Definitions for stating the properties\<close>

text \<open>
  The definitions of this section follow the words of the specification; none of them is
  part of the program. The theorems below compare them with the functions above.
\<close>

text \<open>
  The value of a Key in a regenerated catalog: the existing value if present and non-empty,
  otherwise the Default Message if one exists, otherwise the empty string.
\<close>

definition translatedText :: "(string \<rightharpoonup> string) \<Rightarrow> (string \<rightharpoonup> string) \<Rightarrow> string \<Rightarrow> string" where
  "translatedText existing messages k =
     (case existing k of
        Some v \<Rightarrow> if v \<noteq> [] then v else (case messages k of Some m \<Rightarrow> m | None \<Rightarrow> [])
      | None \<Rightarrow> (case messages k of Some m \<Rightarrow> m | None \<Rightarrow> []))"

text \<open>A string that neither begins nor ends with a double quote.\<close>

definition quoteFree :: "string \<Rightarrow> bool" where
  "quoteFree d = (d = [] \<or> (hd d \<noteq> dquote \<and> last d \<noteq> dquote))"

text \<open>The three lines of one catalog block: header, value line, blank separator.\<close>

definition blockLines :: "string \<Rightarrow> string \<Rightarrow> string list" where
  "blockLines k v = [''['' @ k @ '']'', ''other = '' @ [dquote] @ v @ [dquote], []]"

text \<open>
  A line of a validation-rule block that is neither an \<^verbatim>\<open>id:\<close> line, nor a
  \<^verbatim>\<open>message:\<close> line, nor a closing line.
\<close>

definition neutralLine :: "string \<Rightarrow> bool" where
  "neutralLine text =
     (\<not> hasPrefix (trimSpace text) ''id:'' \<and> \<not> hasPrefix (trimSpace text) ''message:''
      \<and> \<not> closesBlock (trimSpace text))"

text \<open>
  Where the raw-text scan stands after a list of lines: \<open>endsOutsideBlock ls\<close> says that
  the scan, started in the outer loop, is in the outer loop again when the lines \<open>ls\<close> are
  read, so that the next line is tested for the marker; \<open>endsOutsideBlockFromInside ls\<close>
  says the same for a scan started in the inner loop.
\<close>

fun endsOutsideBlock :: "string list \<Rightarrow> bool"
  and endsOutsideBlockFromInside :: "string list \<Rightarrow> bool" where
  "endsOutsideBlock [] = True"
| "endsOutsideBlock (line # rest) =
     (if containsStr line celMarker then endsOutsideBlockFromInside rest
      else endsOutsideBlock rest)"
| "endsOutsideBlockFromInside [] = False"
| "endsOutsideBlockFromInside (text # rest) =
     (if hasPrefix (trimSpace text) ''id:'' then endsOutsideBlockFromInside rest
      else if hasPrefix (trimSpace text) ''message:'' then endsOutsideBlockFromInside rest
      else if closesBlock (trimSpace text) then endsOutsideBlock rest
      else endsOutsideBlockFromInside rest)"

text \<open>
  The values of the \<^verbatim>\<open>other = \<close> lines whose last preceding header is \<open>[k]\<close>, in
  the order of the file; \<open>header\<close> is the key of the last header read so far.
\<close>

fun otherValuesUnder :: "string \<Rightarrow> string \<Rightarrow> string list \<Rightarrow> string list" where
  "otherValuesUnder k header [] = []"
| "otherValuesUnder k header (text # rest) =
     (if hasPrefix (trimSpace text) ''['' \<and> hasSuffix (trimSpace text) '']''
      then otherValuesUnder k
             (slice (trimSpace text) 1 (int (length (trimSpace text)) - 1)) rest
      else if hasPrefix (trimSpace text) ''other = '' \<and> header = k
      then trimByte (drop (length ''other = '') (trimSpace text)) dquote
             # otherValuesUnder k header rest
      else otherValuesUnder k header rest)"

text \<open>
  The TranslatedText of a key in a catalog file, read off the file format
  \<^verbatim>\<open>other = "<TranslatedText>"\<close>: \<open>rawValuesUnder k header ls\<close> lists what follows
  \<^verbatim>\<open>other = \<close> on the value lines whose last preceding header is \<open>[k]\<close>, \<open>unquote\<close>
  removes exactly the one quote before and the one quote after the text, and the
  TranslatedText of \<open>k\<close> is what the last of these value lines holds between its quotes.
\<close>

fun rawValuesUnder :: "string \<Rightarrow> string \<Rightarrow> string list \<Rightarrow> string list" where
  "rawValuesUnder k header [] = []"
| "rawValuesUnder k header (text # rest) =
     (if hasPrefix (trimSpace text) ''['' \<and> hasSuffix (trimSpace text) '']''
      then rawValuesUnder k
             (slice (trimSpace text) 1 (int (length (trimSpace text)) - 1)) rest
      else if hasPrefix (trimSpace text) ''other = '' \<and> header = k
      then drop (length ''other = '') (trimSpace text) # rawValuesUnder k header rest
      else rawValuesUnder k header rest)"

definition unquote :: "string \<Rightarrow> string option" where
  "unquote f =
     (if 2 \<le> length f \<and> hd f = dquote \<and> last f = dquote then Some (butlast (tl f))
      else None)"

definition catalogText :: "string \<Rightarrow> string list \<Rightarrow> string option" where
  "catalogText k ls =
     (if rawValuesUnder k [] ls = [] then None else unquote (last (rawValuesUnder k [] ls)))"

text \<open>The extraction results of the files that parse, in processing order.\<close>

definition parsedFiles ::
  "(string \<Rightarrow> visitee list option) \<Rightarrow> fileSystem \<Rightarrow> string \<Rightarrow> string \<Rightarrow> string list
     \<Rightarrow> (string list \<times> (string \<rightharpoonup> string)) list" where
  "parsedFiles parser fs enumPrefix enumSuffix protoFiles =
     concat (map (\<lambda>f. case parseProto parser fs f enumPrefix enumSuffix of
                          Inl err \<Rightarrow> [] | Inr r \<Rightarrow> [r]) protoFiles)"

text \<open>The aggregation loop run on a list of extraction results.\<close>

fun aggregate :: "(string list \<times> (string \<rightharpoonup> string)) list \<Rightarrow> collected \<Rightarrow> collected" where
  "aggregate [] acc = acc"
| "aggregate ((entries, messages) # rest) acc = aggregate rest (addEntries entries messages acc)"

text \<open>
  The invariant of the aggregation loop: the list has no duplicates and \<^verbatim>\<open>seenEntries\<close>
  holds exactly its members.
\<close>

definition seenInv :: "collected \<Rightarrow> bool" where
  "seenInv acc = (case acc of (allEntries, allMessages, seenEntries) \<Rightarrow>
     distinct allEntries \<and> (\<forall>k. goLookupBool seenEntries k = (k \<in> set allEntries)))"

text \<open>The Default Message of a Key in the first extraction result that has the Key.\<close>

fun firstMessage :: "(string list \<times> (string \<rightharpoonup> string)) list \<Rightarrow> string \<Rightarrow> string" where
  "firstMessage [] k = []"
| "firstMessage ((entries, messages) # rest) k =
     (if k \<in> set entries then goLookup messages k else firstMessage rest k)"

text \<open>The names of the enum fields among the elements of an enum, in declaration order.\<close>

fun fieldNames :: "visitee list \<Rightarrow> string list" where
  "fieldNames [] = []"
| "fieldNames (EnumField name # rest) = name # fieldNames rest"
| "fieldNames (Enum name elements # rest) = fieldNames rest"
| "fieldNames (Container elements # rest) = fieldNames rest"
| "fieldNames (Leaf # rest) = fieldNames rest"

text \<open>All enums of a declaration tree with their elements, in the order of the walk.\<close>

fun enumsOf :: "visitee list \<Rightarrow> (string \<times> visitee list) list" where
  "enumsOf [] = []"
| "enumsOf (Enum name elements # rest) = (name, elements) # enumsOf elements @ enumsOf rest"
| "enumsOf (Container elements # rest) = enumsOf elements @ enumsOf rest"
| "enumsOf (EnumField name # rest) = enumsOf rest"
| "enumsOf (Leaf # rest) = enumsOf rest"

text \<open>A name satisfies both filters; an empty filter is always satisfied.\<close>

definition satisfiesFilters :: "string \<Rightarrow> string \<Rightarrow> string \<Rightarrow> bool" where
  "satisfiesFilters enumPrefix enumSuffix name =
     ((enumPrefix = [] \<or> hasPrefix name enumPrefix) \<and> (enumSuffix = [] \<or> hasSuffix name enumSuffix))"

text \<open>The field names of the enums whose names satisfy the filters.\<close>

definition enumKeys :: "string \<Rightarrow> string \<Rightarrow> visitee list \<Rightarrow> string list" where
  "enumKeys enumPrefix enumSuffix definition =
     concat (map (\<lambda>e. fieldNames (snd e))
       (filter (\<lambda>e. satisfiesFilters enumPrefix enumSuffix (fst e)) (enumsOf definition)))"

section \<open>Auxiliary lemmas\<close>

subsection \<open>The two loops of \<^verbatim>\<open>generateTOML\<close>\<close>

text \<open>
  The first loop gives every listed Key its existing value or the empty string; the second
  loop appends the blocks in list order.
\<close>

lemma mergeLoop_apply:
  "mergeLoop entries existing entryMap k =
     (if k \<in> set entries then Some (goLookup existing k) else entryMap k)"
  by (induction entries arbitrary: entryMap) (auto simp: goLookup_def split: option.splits)

lemma goLookup_mergeLoop:
  "k \<in> set entries \<Longrightarrow> goLookup (mergeLoop entries existing entryMap) k = goLookup existing k"
  by (simp add: mergeLoop_apply goLookup_def)

lemma renderLoop_concat:
  "renderLoop entries entryMap messages buffer =
     buffer @ concat (map (\<lambda>k. sprintfBlock k
        (if goLookup entryMap k = [] then goLookup messages k else goLookup entryMap k)) entries)"
  by (induction entries arbitrary: buffer) simp_all

lemma written_value:
  "(if goLookup existing k = [] then goLookup messages k else goLookup existing k)
     = translatedText existing messages k"
  by (simp add: goLookup_def translatedText_def split: option.splits)

lemma render_merge:
  "renderLoop entries (mergeLoop entries existing Map.empty) messages [] =
     concat (map (\<lambda>k. sprintfBlock k (translatedText existing messages k)) entries)"
proof -
  have "map (\<lambda>k. sprintfBlock k
          (if goLookup (mergeLoop entries existing Map.empty) k = [] then goLookup messages k
           else goLookup (mergeLoop entries existing Map.empty) k)) entries
      = map (\<lambda>k. sprintfBlock k (translatedText existing messages k)) entries"
    by (rule map_cong) (simp_all only: goLookup_mergeLoop written_value)
  then show ?thesis by (simp only: renderLoop_concat append_Nil)
qed

subsection \<open>String primitives\<close>

text \<open>
  Trimming leaves a text alone that begins and ends with bytes that belong to no white-space
  encoding, and what a trimming function returns is made of bytes of its argument.
\<close>

lemma hasPrefix_simps:
  "hasPrefix s [] = True"
  "hasPrefix [] (d # p) = False"
  "hasPrefix (c # s) (d # p) = (c = d \<and> hasPrefix s p)"
  by (auto simp: hasPrefix_def)

lemma hasSuffix_last: "hasSuffix s p \<Longrightarrow> p \<noteq> [] \<Longrightarrow> last s = last p"
  by (metis append_take_drop_id hasSuffix_def last_appendR)

lemma hasSuffix_snoc: "hasSuffix (s @ [c]) [d] = (c = d)"
  by (auto simp: hasSuffix_def)

lemma leadingSpace_text: "c \<notin> set (map hd spaceRunes) \<Longrightarrow> leadingSpace (c # s) = 0"
proof -
  assume c: "c \<notin> set (map hd spaceRunes)"
  have "\<not> hasPrefix (c # s) p" if "p \<in> set spaceRunes" for p
  proof
    assume h: "hasPrefix (c # s) p"
    from that have "p \<noteq> []" by (auto simp: spaceRunes_def)
    then obtain d p' where "p = d # p'" by (cases p) auto
    with h have "c = hd p" by (simp add: hasPrefix_simps)
    with that c show False by auto
  qed
  then have "find (hasPrefix (c # s)) spaceRunes = None"
    by (simp add: find_None_iff)
  then show ?thesis by (simp add: leadingSpace_def)
qed

lemma trailingSpace_text: "c \<notin> set (map last spaceRunes) \<Longrightarrow> trailingSpace (s @ [c]) = 0"
proof -
  assume c: "c \<notin> set (map last spaceRunes)"
  have "\<not> hasSuffix (s @ [c]) p" if "p \<in> set spaceRunes" for p
  proof
    assume h: "hasSuffix (s @ [c]) p"
    from that have "p \<noteq> []" by (auto simp: spaceRunes_def)
    with h have "c = last p" using hasSuffix_last by fastforce
    with that c show False by auto
  qed
  then have "find (hasSuffix (s @ [c])) spaceRunes = None"
    by (simp add: find_None_iff)
  then show ?thesis by (simp add: trailingSpace_def)
qed

lemma trimSpace_text:
  assumes "c \<notin> set (map hd spaceRunes)" and "d \<notin> set (map last spaceRunes)"
  shows "trimSpace (c # s @ [d]) = c # s @ [d]"
proof -
  have "trailingSpace ((c # s) @ [d]) = 0" using assms(2) by (rule trailingSpace_text)
  then show ?thesis using leadingSpace_text [OF assms(1)] by (simp add: trimSpace_def)
qed

lemma trimSpace_Nil: "trimSpace [] = []"
  by (simp add: trimSpace_def leadingSpace_def trailingSpace_def spaceRunes_def
      hasPrefix_def hasSuffix_def)

lemma bracket_text:
  "CHR ''['' \<notin> set (map hd spaceRunes)" "CHR '']'' \<notin> set (map last spaceRunes)"
  "CHR ''o'' \<notin> set (map hd spaceRunes)" "dquote \<notin> set (map last spaceRunes)"
  by (simp_all add: spaceRunes_def dquote_def)

lemma set_trimLeftSpace: "set (trimLeftSpace s) \<subseteq> set s"
proof (induction s rule: trimLeftSpace.induct)
  case (1 s)
  show ?case
  proof (cases "leadingSpace s = 0")
    case True
    then show ?thesis by simp
  next
    case False
    with 1 have "set (trimLeftSpace (drop (leadingSpace s) s)) \<subseteq> set (drop (leadingSpace s) s)"
      by simp
    also have "\<dots> \<subseteq> set s" by (rule set_drop_subset)
    finally show ?thesis using False by (subst trimLeftSpace.simps) simp
  qed
qed

lemma set_trimRightSpace: "set (trimRightSpace s) \<subseteq> set s"
proof (induction s rule: trimRightSpace.induct)
  case (1 s)
  show ?case
  proof (cases "trailingSpace s = 0")
    case True
    then show ?thesis by simp
  next
    case False
    with 1 have "set (trimRightSpace (take (length s - trailingSpace s) s))
        \<subseteq> set (take (length s - trailingSpace s) s)"
      by simp
    also have "\<dots> \<subseteq> set s" by (rule set_take_subset)
    finally show ?thesis using False by (subst trimRightSpace.simps) simp
  qed
qed

lemma set_trimSpace: "set (trimSpace s) \<subseteq> set s"
  unfolding trimSpace_def using set_trimRightSpace set_trimLeftSpace by blast

lemma set_dropWhile_subset: "set (dropWhile P xs) \<subseteq> set xs"
  by (auto dest: set_dropWhileD)

lemma set_trimByte: "set (trimByte s c) \<subseteq> set s"
proof -
  have "set (trimByte s c) \<subseteq> set (rev (dropWhile (\<lambda>x. x = c) (rev s)))"
    unfolding trimByte_def by (rule set_dropWhile_subset)
  also have "\<dots> = set (dropWhile (\<lambda>x. x = c) (rev s))" by simp
  also have "\<dots> \<subseteq> set (rev s)" by (rule set_dropWhile_subset)
  finally show ?thesis by simp
qed

lemma last_dropWhile: "dropWhile P xs \<noteq> [] \<Longrightarrow> last (dropWhile P xs) = last xs"
proof -
  assume ne: "dropWhile P xs \<noteq> []"
  have "last xs = last (takeWhile P xs @ dropWhile P xs)" by simp
  also have "\<dots> = last (dropWhile P xs)" using ne by (rule last_appendR)
  finally show ?thesis by simp
qed

lemma trimByte_ends:
  "trimByte s c = [] \<or> (hd (trimByte s c) \<noteq> c \<and> last (trimByte s c) \<noteq> c)"
proof (cases "trimByte s c = []")
  case True
  then show ?thesis by simp
next
  case False
  let ?P = "\<lambda>x. x = c"
  let ?d = "dropWhile ?P (rev s)"
  have u: "trimByte s c = dropWhile ?P (rev ?d)" by (simp add: trimByte_def)
  with False have ne: "dropWhile ?P (rev ?d) \<noteq> []" by simp
  have dne: "?d \<noteq> []"
  proof
    assume e: "?d = []"
    have "dropWhile ?P (rev ?d) = []" unfolding e by simp
    with ne show False by contradiction
  qed
  have "\<not> ?P (hd (dropWhile ?P (rev ?d)))" using ne by (rule hd_dropWhile)
  then have h: "hd (trimByte s c) \<noteq> c" using u by simp
  have "last (dropWhile ?P (rev ?d)) = last (rev ?d)" using ne by (rule last_dropWhile)
  also have "\<dots> = hd ?d" using dne by (simp add: last_rev)
  finally have "last (trimByte s c) = hd ?d" using u by simp
  moreover have "\<not> ?P (hd ?d)" using dne by (rule hd_dropWhile)
  ultimately have "last (trimByte s c) \<noteq> c" by simp
  with h show ?thesis by simp
qed

lemma trimByte_fix:
  assumes "u = [] \<or> (hd u \<noteq> c \<and> last u \<noteq> c)"
  shows "trimByte u c = u"
proof (cases "u = []")
  case True
  then show ?thesis by (simp add: trimByte_def)
next
  case False
  with assms have h: "hd u \<noteq> c" and l: "last u \<noteq> c" by auto
  from False l have "hd (rev u) \<noteq> c" by (simp add: hd_rev)
  with False have "dropWhile (\<lambda>x. x = c) (rev u) = rev u"
    by (cases "rev u") auto
  moreover from False h have "dropWhile (\<lambda>x. x = c) u = u"
    by (cases u) auto
  ultimately show ?thesis by (simp add: trimByte_def)
qed

lemma trimByte_idem: "trimByte (trimByte s c) c = trimByte s c"
  using trimByte_ends [of s c] by (rule trimByte_fix)

lemma trimByte_quoted: "trimByte (c # s @ [c]) c = trimByte s c"
proof (cases "\<forall>x\<in>set s. x = c")
  case True
  then have e1: "dropWhile (\<lambda>x. x = c) (rev s) = []" by simp
  from True have e2: "dropWhile (\<lambda>x. x = c) (rev (c # s @ [c])) = []" by simp
  have "trimByte s c = []" unfolding trimByte_def e1 by simp
  moreover have "trimByte (c # s @ [c]) c = []" unfolding trimByte_def e2 by simp
  ultimately show ?thesis by simp
next
  case False
  let ?P = "\<lambda>x. x = c"
  from False have ne: "dropWhile ?P (rev s) \<noteq> []" by simp
  from False have "dropWhile ?P (rev s @ [c]) = dropWhile ?P (rev s) @ [c]"
    by (simp add: dropWhile_append)
  then have "trimByte (c # s @ [c]) c = dropWhile ?P (rev (dropWhile ?P (rev s) @ [c]))"
    by (simp add: trimByte_def)
  also have "\<dots> = dropWhile ?P (rev (dropWhile ?P (rev s)))" by simp
  finally show ?thesis by (simp add: trimByte_def)
qed

lemma trimByte_quoteFree: "quoteFree d \<Longrightarrow> trimByte d dquote = d"
  unfolding quoteFree_def by (rule trimByte_fix)

subsection \<open>The line scanner on a written catalog\<close>

text \<open>
  No token of the scanner holds a line feed. A block written by \<^verbatim>\<open>generateTOML\<close> for
  a Key and a value without line feeds is read back as its three lines.
\<close>

lemma scanTokens_line:
  "lf \<notin> set a \<Longrightarrow> scanTokens (a @ lf # rest) cur = (cur @ a) # scanTokens rest []"
  by (induction a arbitrary: cur) auto

lemma scanTokens_lf_free:
  "lf \<notin> set cur \<Longrightarrow> l \<in> set (scanTokens data cur) \<Longrightarrow> lf \<notin> set l"
proof (induction data arbitrary: cur)
  case Nil
  then show ?case by (auto split: if_splits)
next
  case (Cons c data)
  show ?case
  proof (cases "c = lf")
    case True
    with Cons.prems have "l = cur \<or> l \<in> set (scanTokens data [])" by simp
    then show ?thesis using Cons.prems(1) Cons.IH [of "[]"] by auto
  next
    case False
    with Cons.prems have "l \<in> set (scanTokens data (cur @ [c]))" by simp
    moreover from False Cons.prems(1) have "lf \<notin> set (cur @ [c])" by auto
    ultimately show ?thesis using Cons.IH by blast
  qed
qed

lemma set_dropCR: "set (dropCR s) \<subseteq> set s"
  by (auto simp: dropCR_def dest: in_set_butlastD)

lemma scanLines_lf_free: "l \<in> set (scanLines data) \<Longrightarrow> lf \<notin> set l"
proof -
  assume "l \<in> set (scanLines data)"
  then obtain t where t: "t \<in> set (scanTokens data [])" and l: "l = dropCR t"
    by (auto simp: scanLines_def)
  from t have "lf \<notin> set t" by (rule scanTokens_lf_free [rotated]) simp
  with l set_dropCR [of t] show ?thesis by blast
qed

lemma dropCR_keep: "c \<noteq> cr \<Longrightarrow> dropCR (s @ [c]) = s @ [c]"
  by (simp add: dropCR_def)

lemma scanLines_block:
  assumes "lf \<notin> set k" and "lf \<notin> set v"
  shows "scanLines (sprintfBlock k v @ rest) = blockLines k v @ scanLines rest"
proof -
  let ?h = "''['' @ k @ '']''" and ?o = "''other = '' @ [dquote] @ v @ [dquote]"
  have h: "lf \<notin> set ?h" and o: "lf \<notin> set ?o"
    using assms by (simp_all add: lf_def dquote_def)
  have "sprintfBlock k v @ rest = ?h @ lf # (?o @ lf # ([] @ lf # rest))"
    by (simp add: sprintfBlock_def)
  then have "scanTokens (sprintfBlock k v @ rest) [] = ?h # ?o # [] # scanTokens rest []"
    using scanTokens_line [OF h, of "?o @ lf # ([] @ lf # rest)" "[]"]
      scanTokens_line [OF o, of "[] @ lf # rest" "[]"]
      scanTokens_line [of "[]" rest "[]"]
    by simp
  moreover have "dropCR ?h = ?h"
    using dropCR_keep [of "CHR '']''" "''['' @ k"] by (simp add: cr_def)
  moreover have "dropCR ?o = ?o"
    using dropCR_keep [of dquote "''other = '' @ [dquote] @ v"] by (simp add: cr_def dquote_def)
  moreover have "dropCR [] = []" by (simp add: dropCR_def)
  ultimately show ?thesis by (simp add: scanLines_def blockLines_def)
qed

lemma scanLines_Nil: "scanLines [] = []"
  by (simp add: scanLines_def)

lemma scanLines_render:
  "\<forall>k\<in>set K. lf \<notin> set k \<and> lf \<notin> set (val k) \<Longrightarrow>
     scanLines (concat (map (\<lambda>k. sprintfBlock k (val k)) K)) =
       concat (map (\<lambda>k. blockLines k (val k)) K)"
  by (induction K) (simp_all add: scanLines_Nil scanLines_block)

subsection \<open>The reader on the lines of written blocks\<close>

text \<open>
  On the three lines of a block the reader sets the current key and, unless the key is
  empty, records the value without its surrounding quotes.
\<close>

lemma hasSuffix_bracket: "hasSuffix (c # s @ [e]) [d] = (e = d)"
  by (auto simp: hasSuffix_def)

lemma tomlLoop_block:
  "tomlLoop (blockLines k v @ rest) cur m =
     tomlLoop rest k (if k \<noteq> [] then m(k \<mapsto> trimByte v dquote) else m)"
proof -
  let ?h = "CHR ''['' # k @ [CHR '']'']"
  let ?o = "CHR ''o'' # (''ther = '' @ [dquote] @ v) @ [dquote]"
  have th: "trimSpace ?h = ?h" by (rule trimSpace_text) (rule bracket_text)+
  have to: "trimSpace ?o = ?o" by (rule trimSpace_text) (rule bracket_text)+
  have key: "slice ?h 1 (int (length ?h) - 1) = k" by (simp add: slice_def)
  have hdr: "tomlLoop (?h # ?o # [] # rest) cur m = tomlLoop (?o # [] # rest) k m"
    by (simp only: tomlLoop.simps th key hasPrefix_simps hasSuffix_bracket simp_thms if_True)
  have "drop (length ''other = '') ?o = dquote # v @ [dquote]" by simp
  then have val: "trimByte (drop (length ''other = '') ?o) dquote = trimByte v dquote"
    by (simp only: trimByte_quoted)
  have np: "\<not> (hasPrefix ?o ''['' \<and> hasSuffix ?o '']'')" by (simp add: hasPrefix_simps)
  have op: "hasPrefix ?o ''other = ''" by (simp add: hasPrefix_simps)
  have oth: "tomlLoop (?o # [] # rest) k m =
      tomlLoop ([] # rest) k (if k \<noteq> [] then m(k \<mapsto> trimByte v dquote) else m)"
  proof (cases "k = []")
    case True
    then show ?thesis by (simp only: tomlLoop.simps to np op simp_thms if_True if_False)
  next
    case False
    then show ?thesis by (simp only: tomlLoop.simps to np op val simp_thms if_True if_False)
  qed
  have blank: "\<And>m'. tomlLoop ([] # rest) k m' = tomlLoop rest k m'"
    by (simp add: trimSpace_Nil hasPrefix_simps)
  have "blockLines k v @ rest = ?h # ?o # [] # rest" by (simp add: blockLines_def)
  then show ?thesis by (simp only: hdr oth blank)
qed

lemma tomlLoop_render:
  "tomlLoop (concat (map (\<lambda>k. blockLines k (val k)) K)) cur m =
     (\<lambda>k'. if k' \<in> set K \<and> k' \<noteq> [] then Some (trimByte (val k') dquote) else m k')"
proof (induction K arbitrary: cur m)
  case Nil
  show ?case by simp
next
  case (Cons k K)
  show ?case
    by (rule ext) (simp add: tomlLoop_block Cons.IH)
qed

lemma tomlLoop_empty_key: "tomlLoop lines cur m [] = m []"
  by (induction lines arbitrary: cur m) simp_all

lemma tomlLoop_values:
  "\<forall>l\<in>set lines. lf \<notin> set l \<Longrightarrow> tomlLoop lines cur m k = Some v \<Longrightarrow>
     m k = Some v \<or> (lf \<notin> set v \<and> trimByte v dquote = v)"
proof (induction lines arbitrary: cur m)
  case Nil
  then show ?case by simp
next
  case (Cons l lines)
  let ?v = "trimByte (drop (length ''other = '') (trimSpace l)) dquote"
  have "set ?v \<subseteq> set l"
    using set_trimByte set_trimSpace set_drop_subset by fast
  with Cons.prems(1) have lfv: "lf \<notin> set ?v" by auto
  have idem: "trimByte ?v dquote = ?v" by (rule trimByte_idem)
  from Cons.prems(1) have rest: "\<forall>l\<in>set lines. lf \<notin> set l" by simp
  note IH = Cons.IH [OF rest]
  from Cons.prems(2) show ?case
    using lfv idem by (auto split: if_splits dest!: IH)
qed

subsection \<open>The raw-text scan\<close>

text \<open>
  The scan only appends to the Key list and only adds to the message map, so its result on
  given accumulators is its result on empty ones, appended. The two loops are treated
  together, by induction on the lines.
\<close>

lemma scan_shift:
  "(\<forall>es0 es ms0 ms. scanOuter ls (es0 @ es) (ms0 ++ ms) =
       (es0 @ fst (scanOuter ls es ms), ms0 ++ snd (scanOuter ls es ms)))
   \<and> (\<forall>i m es0 es ms0 ms. scanInner ls i m (es0 @ es) (ms0 ++ ms) =
       (es0 @ fst (scanInner ls i m es ms), ms0 ++ snd (scanInner ls i m es ms)))"
proof (induction ls)
  case Nil
  show ?case by simp
next
  case (Cons l ls)
  have outer: "\<And>es0 es ms0 ms. scanOuter ls (es0 @ es) (ms0 ++ ms) =
       (es0 @ fst (scanOuter ls es ms), ms0 ++ snd (scanOuter ls es ms))"
    using Cons.IH by blast
  have inner: "\<And>i m es0 es ms0 ms. scanInner ls i m (es0 @ es) (ms0 ++ ms) =
       (es0 @ fst (scanInner ls i m es ms), ms0 ++ snd (scanInner ls i m es ms))"
    using Cons.IH by blast
  have o1: "\<And>es0 es ms0 ms. scanOuter (l # ls) (es0 @ es) (ms0 ++ ms) =
       (es0 @ fst (scanOuter (l # ls) es ms), ms0 ++ snd (scanOuter (l # ls) es ms))"
    by (simp add: outer inner)
  have i1: "\<And>i m es0 es ms0 ms. scanInner (l # ls) i m (es0 @ es) (ms0 ++ ms) =
       (es0 @ fst (scanInner (l # ls) i m es ms), ms0 ++ snd (scanInner (l # ls) i m es ms))"
    by (simp add: outer inner map_add_upd [symmetric] del: map_add_upd split: option.splits)
  show ?case using o1 i1 by blast
qed

lemma scanOuter_acc:
  "scanOuter ls es ms =
     (es @ fst (scanOuter ls [] Map.empty), ms ++ snd (scanOuter ls [] Map.empty))"
  using scan_shift [of ls, THEN conjunct1, rule_format, of es "[]" ms Map.empty] by simp


lemma scanOuter_mono: "set es \<subseteq> set (fst (scanOuter ls es ms))"
  by (subst scanOuter_acc) simp


lemma scan_untouched:
  "(\<forall>es ms. k \<notin> set (fst (scanOuter ls es ms)) \<longrightarrow> snd (scanOuter ls es ms) k = ms k)
   \<and> (\<forall>i m es ms. k \<notin> set (fst (scanInner ls i m es ms)) \<longrightarrow> i \<in> set es \<or> i = [] \<longrightarrow>
         snd (scanInner ls i m es ms) k = ms k)"
proof (induction ls)
  case Nil
  show ?case by simp
next
  case (Cons l ls)
  have outer: "\<And>es ms. k \<notin> set (fst (scanOuter ls es ms)) \<Longrightarrow> snd (scanOuter ls es ms) k = ms k"
    using Cons.IH by blast
  have inner: "\<And>i m es ms. k \<notin> set (fst (scanInner ls i m es ms)) \<Longrightarrow> i \<in> set es \<or> i = []
      \<Longrightarrow> snd (scanInner ls i m es ms) k = ms k"
    using Cons.IH by blast
  have o1: "\<And>es ms. k \<notin> set (fst (scanOuter (l # ls) es ms))
      \<Longrightarrow> snd (scanOuter (l # ls) es ms) k = ms k"
    by (simp add: outer inner split: if_splits)
  have i1: "\<And>i m es ms. k \<notin> set (fst (scanInner (l # ls) i m es ms)) \<Longrightarrow> i \<in> set es \<or> i = []
      \<Longrightarrow> snd (scanInner (l # ls) i m es ms) k = ms k"
  proof -
    fix i m es ms
    assume notin: "k \<notin> set (fst (scanInner (l # ls) i m es ms))" and iok: "i \<in> set es \<or> i = []"
    show "snd (scanInner (l # ls) i m es ms) k = ms k"
    proof (cases "hasPrefix (trimSpace l) ''id:''")
      case True
      then show ?thesis using notin iok
        by (auto simp: inner split: option.splits)
    next
      case notid: False
      show ?thesis
      proof (cases "hasPrefix (trimSpace l) ''message:''")
        case True
        then show ?thesis using notid notin iok
          by (auto simp: inner split: option.splits)
      next
        case notmsg: False
        show ?thesis
        proof (cases "closesBlock (trimSpace l)")
          case True
          let ?ms = "if i \<noteq> [] then ms(i \<mapsto> m) else ms"
          from True notid notmsg notin
          have n: "k \<notin> set (fst (scanOuter ls es ?ms))" by simp
          then have "snd (scanOuter ls es ?ms) k = ?ms k" by (rule outer)
          moreover from n scanOuter_mono [of es ls ?ms] have "k \<notin> set es" by blast
          with iok have "?ms k = ms k" by auto
          ultimately show ?thesis using True notid notmsg by simp
        next
          case False
          then show ?thesis using notid notmsg notin iok by (simp add: inner)
        qed
      qed
    qed
  qed
  show ?case using o1 i1 by blast
qed

lemma scanOuter_untouched:
  "k \<notin> set (fst (scanOuter ls es ms)) \<Longrightarrow> snd (scanOuter ls es ms) k = ms k"
  using scan_untouched [of k ls] by blast

lemma scanInner_neutral:
  "list_all neutralLine mid \<Longrightarrow>
     scanInner (mid @ rest) i m es ms = scanInner rest i m es ms"
  by (induction mid) (simp_all add: neutralLine_def)

lemma scan_reaches_inner:
  assumes "containsStr marker celMarker" and "\<not> closesBlock (trimSpace marker)"
  shows "(\<forall>es ms. \<exists>i' m' es' ms'. scanOuter (pre @ marker # rest) es ms = scanInner rest i' m' es' ms')
   \<and> (\<forall>i m es ms. \<exists>i' m' es' ms'. scanInner (pre @ marker # rest) i m es ms = scanInner rest i' m' es' ms')"
proof (induction pre)
  case Nil
  have "\<And>es ms. \<exists>i' m' es' ms'. scanOuter (marker # rest) es ms = scanInner rest i' m' es' ms'"
    using assms by auto
  moreover have "\<And>i m es ms. \<exists>i' m' es' ms'. scanInner (marker # rest) i m es ms = scanInner rest i' m' es' ms'"
    using assms by (auto split: option.splits)
  ultimately show ?case by simp
next
  case (Cons l pre)
  have outer: "\<And>es ms. \<exists>i' m' es' ms'. scanOuter (pre @ marker # rest) es ms = scanInner rest i' m' es' ms'"
    using Cons.IH by blast
  have inner: "\<And>i m es ms. \<exists>i' m' es' ms'. scanInner (pre @ marker # rest) i m es ms = scanInner rest i' m' es' ms'"
    using Cons.IH by blast
  have "\<And>es ms. \<exists>i' m' es' ms'. scanOuter ((l # pre) @ marker # rest) es ms = scanInner rest i' m' es' ms'"
    using outer inner by simp
  moreover have "\<And>i m es ms. \<exists>i' m' es' ms'. scanInner ((l # pre) @ marker # rest) i m es ms = scanInner rest i' m' es' ms'"
    using outer inner by (simp split: option.splits)
  ultimately show ?case by blast
qed

text \<open>
  When the scan of a prefix of the lines ends in the outer loop, the scan of the rest starts
  there with what the prefix gave.
\<close>

lemma scan_split_outside:
  "(endsOutsideBlock pre \<longrightarrow>
      (\<forall>es ms. scanOuter (pre @ rest) es ms =
         scanOuter rest (fst (scanOuter pre es ms)) (snd (scanOuter pre es ms))))
   \<and> (endsOutsideBlockFromInside pre \<longrightarrow>
      (\<forall>i m es ms. scanInner (pre @ rest) i m es ms =
         scanOuter rest (fst (scanInner pre i m es ms)) (snd (scanInner pre i m es ms))))"
proof (induction pre)
  case Nil
  show ?case by simp
next
  case (Cons l pre)
  have outer: "\<And>es ms. endsOutsideBlock pre \<Longrightarrow> scanOuter (pre @ rest) es ms =
         scanOuter rest (fst (scanOuter pre es ms)) (snd (scanOuter pre es ms))"
    using Cons.IH by blast
  have inner: "\<And>i m es ms. endsOutsideBlockFromInside pre \<Longrightarrow>
         scanInner (pre @ rest) i m es ms =
         scanOuter rest (fst (scanInner pre i m es ms)) (snd (scanInner pre i m es ms))"
    using Cons.IH by blast
  have "\<And>es ms. endsOutsideBlock (l # pre) \<Longrightarrow> scanOuter ((l # pre) @ rest) es ms =
         scanOuter rest (fst (scanOuter (l # pre) es ms)) (snd (scanOuter (l # pre) es ms))"
    by (simp add: outer inner split: if_splits)
  moreover have "\<And>i m es ms. endsOutsideBlockFromInside (l # pre) \<Longrightarrow>
         scanInner ((l # pre) @ rest) i m es ms =
         scanOuter rest (fst (scanInner (l # pre) i m es ms)) (snd (scanInner (l # pre) i m es ms))"
    by (simp add: outer inner split: if_splits option.splits)
  ultimately show ?case by blast
qed

lemma scanOuter_split:
  "endsOutsideBlock pre \<Longrightarrow> scanOuter (pre @ rest) es ms =
     scanOuter rest (fst (scanOuter pre es ms)) (snd (scanOuter pre es ms))"
  using scan_split_outside [of pre rest] by blast

text \<open>
  A marker line that the outer loop reads, or that does not close a block, leaves the scan
  in the inner loop.
\<close>

lemma scan_enters_block:
  assumes "containsStr marker celMarker"
    and "endsOutsideBlock pre \<or> \<not> closesBlock (trimSpace marker)"
  shows "\<exists>i m es' ms'. scanOuter (pre @ marker # rest) es ms = scanInner rest i m es' ms'"
proof (cases "endsOutsideBlock pre")
  case True
  then have "scanOuter (pre @ marker # rest) es ms =
      scanOuter (marker # rest) (fst (scanOuter pre es ms)) (snd (scanOuter pre es ms))"
    by (rule scanOuter_split)
  also have "\<dots> = scanInner rest [] [] (fst (scanOuter pre es ms)) (snd (scanOuter pre es ms))"
    using assms(1) by simp
  finally show ?thesis by blast
next
  case False
  with assms(2) have "\<not> closesBlock (trimSpace marker)" by simp
  with assms(1) show ?thesis using scan_reaches_inner [of marker pre rest] by blast
qed

lemma idLine_facts:
  "hasPrefix ''id: \"invalid_input\"'' ''id:''"
  "quotedValue ''id: \"invalid_input\"'' = Some ''invalid_input''"
  by (simp_all add: hasPrefix_def quotedValue_def indexByte_def lastIndexByte_def slice_def dquote_def)

lemma msgLine_facts:
  "\<not> hasPrefix ''message: \"must not be empty\"'' ''id:''"
  "hasPrefix ''message: \"must not be empty\"'' ''message:''"
  "quotedValue ''message: \"must not be empty\"'' = Some ''must not be empty''"
  by (simp_all add: hasPrefix_def quotedValue_def indexByte_def lastIndexByte_def slice_def dquote_def)

lemma closesBlock_facts:
  "closesBlock t \<Longrightarrow> \<not> hasPrefix t ''id:''"
  "closesBlock t \<Longrightarrow> \<not> hasPrefix t ''message:''"
  by (cases t; auto simp: closesBlock_def hasPrefix_simps)+

lemma scanInner_block:
  assumes "list_all neutralLine (mid1 @ mid2 @ mid3)"
    and "trimSpace idLine = ''id: \"invalid_input\"''"
    and "trimSpace msgLine = ''message: \"must not be empty\"''"
    and "closesBlock (trimSpace closing)"
  shows "scanInner (mid1 @ idLine # mid2 @ msgLine # mid3 @ closing # post) i m es ms =
           scanOuter post (es @ [''invalid_input''])
             (ms(''invalid_input'' \<mapsto> ''must not be empty''))"
proof -
  from assms(1) have n: "list_all neutralLine mid1" "list_all neutralLine mid2"
      "list_all neutralLine mid3"
    by simp_all
  have "scanInner (mid1 @ idLine # mid2 @ msgLine # mid3 @ closing # post) i m es ms =
          scanInner (idLine # mid2 @ msgLine # mid3 @ closing # post) i m es ms"
    using n(1) by (rule scanInner_neutral)
  also have "\<dots> = scanInner (mid2 @ msgLine # mid3 @ closing # post) ''invalid_input'' m
                     (es @ [''invalid_input'']) ms"
    by (simp add: assms(2) idLine_facts)
  also have "\<dots> = scanInner (msgLine # mid3 @ closing # post) ''invalid_input'' m
                     (es @ [''invalid_input'']) ms"
    using n(2) by (rule scanInner_neutral)
  also have "\<dots> = scanInner (mid3 @ closing # post) ''invalid_input'' ''must not be empty''
                     (es @ [''invalid_input'']) ms"
    by (simp add: assms(3) msgLine_facts)
  also have "\<dots> = scanInner (closing # post) ''invalid_input'' ''must not be empty''
                     (es @ [''invalid_input'']) ms"
    using n(3) by (rule scanInner_neutral)
  also have "\<dots> = scanOuter post (es @ [''invalid_input''])
                     (ms(''invalid_input'' \<mapsto> ''must not be empty''))"
    using assms(4) by (simp add: closesBlock_facts)
  finally show ?thesis .
qed





subsection \<open>\<^verbatim>\<open>generateTOML\<close> on top of \<^verbatim>\<open>loadExistingTOML\<close>\<close>

text \<open>
  The values the reader returns hold no line feed and no quote at either end, and the empty
  key is never recorded.
\<close>

lemma loadExistingTOML_values:
  assumes "loadExistingTOML fs filePath = Inr existing"
  shows "existing [] = None"
    and "existing k = Some v \<Longrightarrow> lf \<notin> set v \<and> trimByte v dquote = v"
proof -
  show "existing [] = None"
    using assms
    by (auto simp: loadExistingTOML_def tomlLoop_empty_key split: fileState.splits if_splits)
  assume v: "existing k = Some v"
  show "lf \<notin> set v \<and> trimByte v dquote = v"
  proof (cases "fs filePath")
    case NotExist
    with assms v show ?thesis by (auto simp: loadExistingTOML_def)
  next
    case Unreadable
    with assms show ?thesis by (simp add: loadExistingTOML_def)
  next
    case (Contents data)
    with assms have "existing = tomlLoop (scanLines data) [] Map.empty"
      by (simp add: loadExistingTOML_def split: if_splits)
    with v have "tomlLoop (scanLines data) [] Map.empty k = Some v" by simp
    moreover have "\<forall>l\<in>set (scanLines data). lf \<notin> set l"
      using scanLines_lf_free by blast
    ultimately show ?thesis using tomlLoop_values by fastforce
  qed
qed

lemma generateTOML_Inr:
  assumes "generateTOML canWrite entries messages filePath fs = Inr fs'"
  obtains existing where "loadExistingTOML fs filePath = Inr existing"
    and "canWrite filePath"
    and "fs' = fs(filePath := Contents
           (concat (map (\<lambda>k. sprintfBlock k (translatedText existing messages k)) entries)))"
  using assms
  by (auto simp: generateTOML_def render_merge split: sum.splits if_splits)

lemma generateTOML_success:
  assumes "loadExistingTOML fs filePath = Inr existing" and "canWrite filePath"
  shows "generateTOML canWrite entries messages filePath fs =
           Inr (fs(filePath := Contents
             (concat (map (\<lambda>k. sprintfBlock k (translatedText existing messages k)) entries))))"
  using assms by (simp add: generateTOML_def render_merge)

lemma loadExistingTOML_render:
  assumes "fs filePath = Contents (concat (map (\<lambda>k. sprintfBlock k (val k)) K))"
    and "\<not> scanErr (concat (map (\<lambda>k. sprintfBlock k (val k)) K))"
    and "\<forall>k\<in>set K. lf \<notin> set k \<and> lf \<notin> set (val k)"
  shows "loadExistingTOML fs filePath =
     Inr (\<lambda>k'. if k' \<in> set K \<and> k' \<noteq> [] then Some (trimByte (val k') dquote) else None)"
  using assms(1,2) by (simp add: loadExistingTOML_def scanLines_render [OF assms(3)] tomlLoop_render)

text \<open>The reader keeps the last value recorded under a key.\<close>

lemma tomlLoop_last:
  "k \<noteq> [] \<Longrightarrow> tomlLoop lines cur m k =
     (if otherValuesUnder k cur lines = [] then m k
      else Some (last (otherValuesUnder k cur lines)))"
  by (induction lines arbitrary: cur m) simp_all

text \<open>
  The reader's value of a key is the text between the quotes of its last value line when
  that text neither begins nor ends with a quote.
\<close>

lemma otherValuesUnder_raw:
  "otherValuesUnder k header ls = map (\<lambda>f. trimByte f dquote) (rawValuesUnder k header ls)"
  by (induction ls arbitrary: header) simp_all

lemma unquote_Some: "unquote f = Some v \<Longrightarrow> f = dquote # v @ [dquote]"
proof -
  assume u: "unquote f = Some v"
  then have len: "2 \<le> length f" and h: "hd f = dquote" and l: "last f = dquote"
    and v: "v = butlast (tl f)"
    by (auto simp: unquote_def split: if_splits)
  from len have "f \<noteq> []" by auto
  then obtain a r where f: "f = a # r" by (cases f) auto
  with len have r: "r \<noteq> []" by auto
  from r have "r = butlast r @ [last r]" by simp
  moreover from f r l have "last r = dquote" by simp
  moreover from f h have "a = dquote" by simp
  ultimately show ?thesis using f v by simp
qed

lemma tomlLoop_catalogText:
  assumes "k \<noteq> []" and "catalogText k ls = Some v" and "quoteFree v"
  shows "tomlLoop ls [] Map.empty k = Some v"
proof -
  let ?raw = "rawValuesUnder k [] ls"
  from assms(2) have ne: "?raw \<noteq> []" and u: "unquote (last ?raw) = Some v"
    by (auto simp: catalogText_def split: if_splits)
  from u have lastraw: "last ?raw = dquote # v @ [dquote]" by (rule unquote_Some)
  have "otherValuesUnder k [] ls = map (\<lambda>f. trimByte f dquote) ?raw"
    by (rule otherValuesUnder_raw)
  with ne have one: "otherValuesUnder k [] ls \<noteq> []"
    and "last (otherValuesUnder k [] ls) = trimByte (last ?raw) dquote"
    by (simp_all add: last_map)
  then have "last (otherValuesUnder k [] ls) = trimByte v dquote"
    by (simp only: lastraw trimByte_quoted)
  also have "\<dots> = v" using assms(3) by (rule trimByte_quoteFree)
  finally show ?thesis using one assms(1) by (simp add: tomlLoop_last)
qed

text \<open>
  A catalog written for Keys and values without line feeds is read back with values for the
  listed Keys only.
\<close>

lemma translatedText_lf_free:
  assumes "loadExistingTOML fs filePath = Inr existing"
    and "lf \<notin> set (goLookup messages k)"
  shows "lf \<notin> set (translatedText existing messages k)"
proof (cases "existing k")
  case None
  with assms(2) show ?thesis by (simp add: translatedText_def goLookup_def)
next
  case (Some v)
  with assms(1) have "lf \<notin> set v" using loadExistingTOML_values(2) by blast
  with Some assms(2) show ?thesis
    by (simp add: translatedText_def goLookup_def split: option.splits)
qed

subsection \<open>The aggregation loop\<close>

text \<open>
  The loop over the files is the aggregation of the results of the files that parse. The
  loop keeps the invariant \<open>seenInv\<close>; a Key already seen keeps its place and its
  message.
\<close>

lemma collectLoop_aggregate:
  "collectLoop parser fs p s protoFiles acc = aggregate (parsedFiles parser fs p s protoFiles) acc"
  by (induction protoFiles arbitrary: acc) (auto simp: parsedFiles_def split: sum.splits)

lemma remdups_rev_seen: "e \<in> set ys \<Longrightarrow> remdups (xs @ e # ys) = remdups (xs @ ys)"
  by (induction xs) auto

lemma addEntries_entries:
  "seenInv (all, am, seen) \<Longrightarrow>
     seenInv (addEntries es ms (all, am, seen))
     \<and> fst (addEntries es ms (all, am, seen)) = rev (remdups (rev (all @ es)))"
proof (induction es arbitrary: all am seen)
  case Nil
  then show ?case by (simp add: seenInv_def distinct_remdups_id)
next
  case (Cons e es)
  show ?case
  proof (cases "e \<in> set all")
    case True
    with Cons.prems have seen: "goLookupBool seen e" by (simp add: seenInv_def)
    have "remdups (rev es @ e # rev all) = remdups (rev es @ rev all)"
      using True by (intro remdups_rev_seen) simp
    with seen Cons.IH [OF Cons.prems] show ?thesis by simp
  next
    case False
    with Cons.prems have seen: "\<not> goLookupBool seen e" by (simp add: seenInv_def)
    have inv': "seenInv (all @ [e], am(e \<mapsto> goLookup ms e), seen(e \<mapsto> True))"
      using Cons.prems False by (auto simp: seenInv_def goLookupBool_def)
    have step: "addEntries (e # es) ms (all, am, seen) =
        addEntries es ms (all @ [e], am(e \<mapsto> goLookup ms e), seen(e \<mapsto> True))"
      using seen by simp
    have eq: "(all @ [e]) @ es = all @ e # es" by simp
    show ?thesis unfolding step using Cons.IH [OF inv'] unfolding eq .
  qed
qed

lemma remdups_append_remdups: "remdups (xs @ remdups ys) = remdups (xs @ ys)"
  by (induction xs) auto

lemma addEntries_messages:
  "seenInv (all, am, seen) \<Longrightarrow>
     fst (snd (addEntries es ms (all, am, seen))) k =
       (if k \<notin> set all \<and> k \<in> set es then Some (goLookup ms k) else am k)"
proof (induction es arbitrary: all am seen)
  case Nil
  show ?case by simp
next
  case (Cons e es)
  show ?case
  proof (cases "e \<in> set all")
    case True
    with Cons.prems have seen: "goLookupBool seen e" by (simp add: seenInv_def)
    with Cons.IH [OF Cons.prems] True show ?thesis by auto
  next
    case False
    with Cons.prems have seen: "\<not> goLookupBool seen e" by (simp add: seenInv_def)
    have inv': "seenInv (all @ [e], am(e \<mapsto> goLookup ms e), seen(e \<mapsto> True))"
      using Cons.prems False by (auto simp: seenInv_def goLookupBool_def)
    have step: "addEntries (e # es) ms (all, am, seen) =
        addEntries es ms (all @ [e], am(e \<mapsto> goLookup ms e), seen(e \<mapsto> True))"
      using seen by simp
    have "fst (snd (addEntries (e # es) ms (all, am, seen))) k =
        (if k \<notin> set (all @ [e]) \<and> k \<in> set es then Some (goLookup ms k)
         else (am(e \<mapsto> goLookup ms e)) k)"
      unfolding step by (rule Cons.IH [OF inv'])
    also have "\<dots> = (if k \<notin> set all \<and> k \<in> set (e # es) then Some (goLookup ms k) else am k)"
      using False by auto
    finally show ?thesis .
  qed
qed

lemma aggregate_result:
  "seenInv acc \<Longrightarrow>
     seenInv (aggregate rs acc)
     \<and> fst (aggregate rs acc) = rev (remdups (rev (fst acc @ concat (map fst rs))))
     \<and> (\<forall>k. fst (snd (aggregate rs acc)) k =
           (if k \<notin> set (fst acc) \<and> k \<in> set (concat (map fst rs))
            then Some (firstMessage rs k) else fst (snd acc) k))"
proof (induction rs arbitrary: acc)
  case Nil
  then show ?case by (cases acc) (simp add: seenInv_def distinct_remdups_id)
next
  case (Cons r rs)
  obtain es ms where r: "r = (es, ms)" by (cases r)
  obtain all am seen where acc: "acc = (all, am, seen)" by (cases acc)
  let ?acc' = "addEntries es ms (all, am, seen)"
  from Cons.prems acc have inv: "seenInv (all, am, seen)" by simp
  then have inv': "seenInv ?acc'" and ents: "fst ?acc' = rev (remdups (rev (all @ es)))"
    using addEntries_entries by blast+
  have msgs: "\<And>k. fst (snd ?acc') k =
       (if k \<notin> set all \<and> k \<in> set es then Some (goLookup ms k) else am k)"
    using inv by (rule addEntries_messages)
  note IH = Cons.IH [OF inv']
  have "fst (aggregate rs ?acc') =
      rev (remdups (rev (concat (map fst rs)) @ remdups (rev (all @ es))))"
    using IH ents by simp
  also have "\<dots> = rev (remdups (rev (concat (map fst rs)) @ rev (all @ es)))"
    by (simp only: remdups_append_remdups)
  finally have e: "fst (aggregate (r # rs) acc) =
      rev (remdups (rev (fst acc @ concat (map fst (r # rs)))))"
    by (simp add: r acc)
  have setacc: "set (fst ?acc') = set all \<union> set es" using ents by auto
  have m: "\<forall>k. fst (snd (aggregate (r # rs) acc)) k =
           (if k \<notin> set (fst acc) \<and> k \<in> set (concat (map fst (r # rs)))
            then Some (firstMessage (r # rs) k) else fst (snd acc) k)"
  proof
    fix k
    have "fst (snd (aggregate rs ?acc')) k =
           (if k \<notin> set (fst ?acc') \<and> k \<in> set (concat (map fst rs))
            then Some (firstMessage rs k) else fst (snd ?acc') k)"
      using IH by blast
    then show "fst (snd (aggregate (r # rs) acc)) k =
           (if k \<notin> set (fst acc) \<and> k \<in> set (concat (map fst (r # rs)))
            then Some (firstMessage (r # rs) k) else fst (snd acc) k)"
      unfolding setacc msgs by (auto simp: r acc)
  qed
  from IH e m show ?case by (simp add: r acc)
qed

subsection \<open>The walk over the declaration tree\<close>

text \<open>The walk appends the field names of the enums that pass the filters, in pre-order.\<close>

lemma appendFields_fieldNames: "appendFields elements entries = entries @ fieldNames elements"
  by (induction elements entries rule: appendFields.induct) simp_all

lemma enumHandler_keys:
  "enumHandler p s name elements entries =
     entries @ (if satisfiesFilters p s name then fieldNames elements else [])"
  by (auto simp: enumHandler_def satisfiesFilters_def appendFields_fieldNames)

lemma enumKeys_simps:
  "enumKeys p s [] = []"
  "enumKeys p s (Enum name elements # rest) =
     (if satisfiesFilters p s name then fieldNames elements else [])
       @ enumKeys p s elements @ enumKeys p s rest"
  "enumKeys p s (Container elements # rest) = enumKeys p s elements @ enumKeys p s rest"
  "enumKeys p s (EnumField name # rest) = enumKeys p s rest"
  "enumKeys p s (Leaf # rest) = enumKeys p s rest"
  by (simp_all add: enumKeys_def)

lemma enumKeys_Cons: "enumKeys p s (v # rest) = enumKeys p s [v] @ enumKeys p s rest"
  by (cases v) (simp_all add: enumKeys_simps)

lemma walk_enumKeys:
  "walk p s vs entries = entries @ enumKeys p s vs"
  "visit p s v entries = entries @ enumKeys p s [v]"
proof (induction p s vs entries and p s v entries rule: walk_visit.induct)
  case (2 enumPrefix enumSuffix v rest entries)
  then show ?case by (simp add: enumKeys_Cons [of _ _ v rest])
qed (simp_all add: enumKeys_simps enumHandler_keys)

section \<open>The catalog writer and reader\<close>

lemmas string_eval =
  hasPrefix_def hasSuffix_def slice_def trimByte_def trimSpace_def leadingSpace_def
  trailingSpace_def spaceRunes_def dropCR_def scanLines_def scanErr_def maxScanTokenSize_def
  lf_def cr_def dquote_def indexByte_def lastIndexByte_def goLookup_def sprintfBlock_def

text \<open>
  C1, as stated: regenerating a catalog preserves the TranslatedText of every Key that is
  both in the Key list and in the prior catalog. This fails in two ways. In the first
  catalog the TranslatedText of \<open>greeting\<close> is empty and the Key has the Default Message
  \<open>hello\<close>: the regenerated block reads \<^verbatim>\<open>other = "hello"\<close>. In the second catalog the
  value line of \<open>greeting\<close> is \<^verbatim>\<open>other = "Er sagte "Hallo""\<close>, so the TranslatedText is
  \<^verbatim>\<open>Er sagte "Hallo"\<close>, and the Key has no Default Message: the regenerated value line is
  \<^verbatim>\<open>other = "Er sagte "Hallo"\<close>, one quote short.
\<close>

theorem generateTOML_preserves_counterexample:
  "catalogText ''greeting'' (scanLines (''[greeting]'' @ [lf] @ ''other = \"\"'' @ [lf, lf]))
     = Some []
   \<and> generateTOML (\<lambda>_. True) [''greeting''] [''greeting'' \<mapsto> ''hello''] ''en.toml''
        (\<lambda>_. Contents (''[greeting]'' @ [lf] @ ''other = \"\"'' @ [lf, lf]))
     = Inr ((\<lambda>_. Contents (''[greeting]'' @ [lf] @ ''other = \"\"'' @ [lf, lf]))
             (''en.toml'' := Contents (''[greeting]'' @ [lf] @ ''other = \"hello\"'' @ [lf, lf])))
   \<and> catalogText ''greeting''
        (scanLines (''[greeting]'' @ [lf] @ ''other = \"Er sagte \"Hallo\"\"'' @ [lf, lf]))
     = Some ''Er sagte \"Hallo\"''
   \<and> generateTOML (\<lambda>_. True) [''greeting''] Map.empty ''de.toml''
        (\<lambda>_. Contents (''[greeting]'' @ [lf] @ ''other = \"Er sagte \"Hallo\"\"'' @ [lf, lf]))
     = Inr ((\<lambda>_. Contents (''[greeting]'' @ [lf] @ ''other = \"Er sagte \"Hallo\"\"'' @ [lf, lf]))
             (''de.toml'' :=
                Contents (''[greeting]'' @ [lf] @ ''other = \"Er sagte \"Hallo\"'' @ [lf, lf])))"
  by (simp add: generateTOML_def loadExistingTOML_def catalogText_def unquote_def string_eval)

text \<open>
  C1, amended: let the prior catalog file be readable (no line beyond the scanner's token
  limit) and the path writable. Then \<^verbatim>\<open>generateTOML\<close> succeeds and the regenerated file
  consists of exactly one block per Key of the Key list, in the order of the list, so that no
  block is written for a key of the prior catalog that is not in the list. For every
  non-empty Key of the list whose TranslatedText in the prior file (the text between the
  quotes of its last value line) neither begins nor ends with a double quote, the block
  carries that TranslatedText unchanged when it is not empty, and the Default Message of the
  Key (or the empty string when there is none) when it is empty. When moreover no Key of the
  list and no Default Message of such a Key contains a line feed and no line of the
  regenerated file exceeds the scanner's token limit, reading the regenerated file gives no
  value to any key outside the list.
\<close>

theorem generateTOML_preserves:
  assumes "fs filePath = Contents data" and "\<not> scanErr data" and "canWrite filePath"
  shows "\<exists>written out.
           out = concat (map (\<lambda>k. sprintfBlock k (written k)) entries)
         \<and> generateTOML canWrite entries messages filePath fs
             = Inr (fs(filePath := Contents out))
         \<and> (\<forall>k\<in>set entries. \<forall>v.
               k \<noteq> [] \<and> catalogText k (scanLines data) = Some v \<and> quoteFree v
                 \<longrightarrow> written k = (if v \<noteq> [] then v else goLookup messages k))
         \<and> ((\<forall>k\<in>set entries. lf \<notin> set k \<and> lf \<notin> set (goLookup messages k))
               \<and> \<not> scanErr out
             \<longrightarrow> (\<exists>reread. loadExistingTOML (fs(filePath := Contents out)) filePath = Inr reread
                    \<and> (\<forall>k. k \<notin> set entries \<longrightarrow> reread k = None)))"
proof -
  let ?existing = "tomlLoop (scanLines data) [] Map.empty"
  let ?written = "translatedText ?existing messages"
  let ?out = "concat (map (\<lambda>k. sprintfBlock k (?written k)) entries)"
  have load: "loadExistingTOML fs filePath = Inr ?existing"
    using assms(1,2) by (simp add: loadExistingTOML_def)
  have run: "generateTOML canWrite entries messages filePath fs
      = Inr (fs(filePath := Contents ?out))"
    using load assms(3) by (rule generateTOML_success)
  have keep: "\<forall>k\<in>set entries. \<forall>v.
               k \<noteq> [] \<and> catalogText k (scanLines data) = Some v \<and> quoteFree v
                 \<longrightarrow> ?written k = (if v \<noteq> [] then v else goLookup messages k)"
  proof (intro ballI allI impI)
    fix k v
    assume "k \<noteq> [] \<and> catalogText k (scanLines data) = Some v \<and> quoteFree v"
    then have "?existing k = Some v" using tomlLoop_catalogText by blast
    then show "?written k = (if v \<noteq> [] then v else goLookup messages k)"
      by (simp add: translatedText_def goLookup_def)
  qed
  have drop: "\<exists>reread. loadExistingTOML (fs(filePath := Contents ?out)) filePath = Inr reread
                    \<and> (\<forall>k. k \<notin> set entries \<longrightarrow> reread k = None)"
    if free: "\<forall>k\<in>set entries. lf \<notin> set k \<and> lf \<notin> set (goLookup messages k)"
      and short: "\<not> scanErr ?out"
  proof -
    have lfree: "\<forall>k\<in>set entries. lf \<notin> set k \<and> lf \<notin> set (?written k)"
      using free translatedText_lf_free [OF load] by blast
    have here: "(fs(filePath := Contents ?out)) filePath = Contents ?out" by simp
    have "loadExistingTOML (fs(filePath := Contents ?out)) filePath =
        Inr (\<lambda>k'. if k' \<in> set entries \<and> k' \<noteq> []
                   then Some (trimByte (?written k') dquote) else None)"
      using here short lfree by (rule loadExistingTOML_render)
    then show ?thesis by simp
  qed
  have body: "?out = concat (map (\<lambda>k. sprintfBlock k (?written k)) entries)
         \<and> generateTOML canWrite entries messages filePath fs
             = Inr (fs(filePath := Contents ?out))
         \<and> (\<forall>k\<in>set entries. \<forall>v.
               k \<noteq> [] \<and> catalogText k (scanLines data) = Some v \<and> quoteFree v
                 \<longrightarrow> ?written k = (if v \<noteq> [] then v else goLookup messages k))
         \<and> ((\<forall>k\<in>set entries. lf \<notin> set k \<and> lf \<notin> set (goLookup messages k))
               \<and> \<not> scanErr ?out
             \<longrightarrow> (\<exists>reread. loadExistingTOML (fs(filePath := Contents ?out)) filePath = Inr reread
                    \<and> (\<forall>k. k \<notin> set entries \<longrightarrow> reread k = None)))"
  proof (intro conjI impI)
    show "?out = concat (map (\<lambda>k. sprintfBlock k (?written k)) entries)" by (rule refl)
    show "generateTOML canWrite entries messages filePath fs
        = Inr (fs(filePath := Contents ?out))"
      by (rule run)
    show "\<forall>k\<in>set entries. \<forall>v.
               k \<noteq> [] \<and> catalogText k (scanLines data) = Some v \<and> quoteFree v
                 \<longrightarrow> ?written k = (if v \<noteq> [] then v else goLookup messages k)"
      by (rule keep)
    show "\<exists>reread. loadExistingTOML (fs(filePath := Contents ?out)) filePath = Inr reread
                    \<and> (\<forall>k. k \<notin> set entries \<longrightarrow> reread k = None)"
      if "(\<forall>k\<in>set entries. lf \<notin> set k \<and> lf \<notin> set (goLookup messages k))
               \<and> \<not> scanErr ?out"
      using that by (intro drop) (rule conjunct1, assumption, rule conjunct2, assumption)
  qed
  show ?thesis
    by (rule exI [where x = "?written"], rule exI [where x = "?out"], rule body)
qed

text \<open>
  An instance: the prior German catalog translates \<open>greeting\<close> and \<open>removed\<close>; the Key list
  is \<open>added\<close>, \<open>greeting\<close>. The new catalog has an empty block for \<open>added\<close>, keeps
  \<open>hallo\<close> for \<open>greeting\<close> although its Default Message is \<open>hello\<close>, and read back it
  has no value for \<open>removed\<close>.
\<close>

theorem generateTOML_preserves_witness:
  "catalogText ''greeting''
     (scanLines (''[greeting]'' @ [lf] @ ''other = \"hallo\"'' @ [lf, lf]
                  @ ''[removed]'' @ [lf] @ ''other = \"weg\"'' @ [lf, lf])) = Some ''hallo''
   \<and> generateTOML (\<lambda>_. True) [''added'', ''greeting''] [''greeting'' \<mapsto> ''hello''] ''de.toml''
       (\<lambda>_. Contents (''[greeting]'' @ [lf] @ ''other = \"hallo\"'' @ [lf, lf]
                     @ ''[removed]'' @ [lf] @ ''other = \"weg\"'' @ [lf, lf]))
     = Inr ((\<lambda>_. Contents (''[greeting]'' @ [lf] @ ''other = \"hallo\"'' @ [lf, lf]
                     @ ''[removed]'' @ [lf] @ ''other = \"weg\"'' @ [lf, lf]))
            (''de.toml'' := Contents (''[added]'' @ [lf] @ ''other = \"\"'' @ [lf, lf]
                     @ ''[greeting]'' @ [lf] @ ''other = \"hallo\"'' @ [lf, lf])))
   \<and> (\<exists>reread.
        loadExistingTOML
          ((\<lambda>_. Contents (''[greeting]'' @ [lf] @ ''other = \"hallo\"'' @ [lf, lf]
                     @ ''[removed]'' @ [lf] @ ''other = \"weg\"'' @ [lf, lf]))
            (''de.toml'' := Contents (''[added]'' @ [lf] @ ''other = \"\"'' @ [lf, lf]
                     @ ''[greeting]'' @ [lf] @ ''other = \"hallo\"'' @ [lf, lf])))
          ''de.toml'' = Inr reread
        \<and> reread ''removed'' = None)"
proof -
  let ?data = "''[greeting]'' @ [lf] @ ''other = \"hallo\"'' @ [lf, lf]
                     @ ''[removed]'' @ [lf] @ ''other = \"weg\"'' @ [lf, lf]"
  let ?new = "''[added]'' @ [lf] @ ''other = \"\"'' @ [lf, lf]
                     @ ''[greeting]'' @ [lf] @ ''other = \"hallo\"'' @ [lf, lf]"
  let ?fs = "\<lambda>_ :: string. Contents ?data"
  let ?K = "[''added'', ''greeting'']"
  let ?M = "[''greeting'' \<mapsto> ''hello'']"
  have h1: "?fs ''de.toml'' = Contents ?data" by simp
  have h2: "\<not> scanErr ?data" by (simp add: scanErr_def maxScanTokenSize_def lf_def)
  have h3: "(\<lambda>_ :: string. True) ''de.toml''" by simp
  have prior: "catalogText ''greeting'' (scanLines ?data) = Some ''hallo''"
    by (simp add: catalogText_def unquote_def string_eval)
  have run: "generateTOML (\<lambda>_. True) ?K ?M ''de.toml'' ?fs
      = Inr (?fs(''de.toml'' := Contents ?new))"
    by (simp add: generateTOML_def loadExistingTOML_def string_eval)
  have free: "\<forall>k\<in>set ?K. lf \<notin> set k \<and> lf \<notin> set (goLookup ?M k)"
    by (simp add: goLookup_def lf_def)
  have short: "\<not> scanErr ?new" by (simp add: scanErr_def maxScanTokenSize_def lf_def)
  have gone: "''removed'' \<notin> set ?K" by simp
  from generateTOML_preserves [of ?fs "''de.toml''" ?data "\<lambda>_. True" ?K ?M, OF h1 h2 h3]
  obtain written out where
    g: "generateTOML (\<lambda>_. True) ?K ?M ''de.toml'' ?fs = Inr (?fs(''de.toml'' := Contents out))"
    and d: "(\<forall>k\<in>set ?K. lf \<notin> set k \<and> lf \<notin> set (goLookup ?M k)) \<and> \<not> scanErr out
             \<longrightarrow> (\<exists>reread. loadExistingTOML (?fs(''de.toml'' := Contents out)) ''de.toml''
                            = Inr reread
                    \<and> (\<forall>k. k \<notin> set ?K \<longrightarrow> reread k = None))"
    by (elim exE conjE)
  from g run have "Inr (?fs(''de.toml'' := Contents out))
      = (Inr (?fs(''de.toml'' := Contents ?new)) :: error + fileSystem)"
    by (rule trans [OF sym])
  then have "?fs(''de.toml'' := Contents out) = ?fs(''de.toml'' := Contents ?new)"
    by (rule sum.inject(2) [THEN iffD1])
  then have "(?fs(''de.toml'' := Contents out)) ''de.toml''
      = (?fs(''de.toml'' := Contents ?new)) ''de.toml''"
    by (rule fun_cong)
  then have "Contents out = Contents ?new" by (simp only: fun_upd_same)
  then have oeq: "out = ?new" by (rule fileState.inject [THEN iffD1])
  have "\<exists>reread. loadExistingTOML (?fs(''de.toml'' := Contents out)) ''de.toml'' = Inr reread
                    \<and> (\<forall>k. k \<notin> set ?K \<longrightarrow> reread k = None)"
    using short unfolding oeq [symmetric] by (intro mp [OF d] conjI free)
  then obtain reread where
    r: "loadExistingTOML (?fs(''de.toml'' := Contents out)) ''de.toml'' = Inr reread"
    and n: "\<forall>k. k \<notin> set ?K \<longrightarrow> reread k = None"
    by (elim exE conjE)
  from n have "''removed'' \<notin> set ?K \<longrightarrow> reread ''removed'' = None" by (rule spec)
  then have none: "reread ''removed'' = None" using gone by (rule mp)
  from r have r': "loadExistingTOML (?fs(''de.toml'' := Contents ?new)) ''de.toml'' = Inr reread"
    unfolding oeq .
  show ?thesis
    by (intro conjI exI) (rule prior, rule run, rule r', rule none)
qed



text \<open>
  C3, as stated: a second run of \<^verbatim>\<open>generateTOML\<close> on its own output, with the same Keys
  and Default Messages, writes the same bytes. This fails when a Default Message ends with a
  double quote, as the message taken from the line
  \<^verbatim>\<open>message: "size must be \"1\""\<close> does: the first run writes the message between two
  quotes, the reader strips every quote at the end of the value, and the second run writes
  the value with one quote less.
\<close>

theorem generateTOML_idempotent_counterexample:
  "generateTOML (\<lambda>_. True) [''size'']
      [''size'' \<mapsto> ''size must be '' @ [CHR 0x5C, dquote, CHR ''1'', CHR 0x5C, dquote]]
      ''en.toml'' (\<lambda>_. NotExist)
     = Inr ((\<lambda>_. NotExist)(''en.toml'' := Contents
         (''[size]'' @ [lf] @ ''other = '' @ [dquote] @ ''size must be ''
            @ [CHR 0x5C, dquote, CHR ''1'', CHR 0x5C, dquote] @ [dquote, lf, lf])))
   \<and> generateTOML (\<lambda>_. True) [''size'']
      [''size'' \<mapsto> ''size must be '' @ [CHR 0x5C, dquote, CHR ''1'', CHR 0x5C, dquote]]
      ''en.toml''
      ((\<lambda>_. NotExist)(''en.toml'' := Contents
         (''[size]'' @ [lf] @ ''other = '' @ [dquote] @ ''size must be ''
            @ [CHR 0x5C, dquote, CHR ''1'', CHR 0x5C, dquote] @ [dquote, lf, lf])))
     = Inr ((\<lambda>_. NotExist)(''en.toml'' := Contents
         (''[size]'' @ [lf] @ ''other = '' @ [dquote] @ ''size must be ''
            @ [CHR 0x5C, dquote, CHR ''1'', CHR 0x5C] @ [dquote, lf, lf])))"
  by (simp add: generateTOML_def loadExistingTOML_def string_eval)

text \<open>
  C3, amended: if a run of \<^verbatim>\<open>generateTOML\<close> succeeds, no Key contains a line feed, no
  Default Message of a Key contains a line feed or begins or ends with a double quote, and no
  line of the catalog just written exceeds the scanner's token limit, then a second run with
  the same Keys and Default Messages succeeds and leaves the file system, and so the bytes
  of the catalog, as the first run left them.
\<close>

theorem generateTOML_idempotent:
  assumes first: "generateTOML canWrite entries messages filePath fs = Inr fs1"
    and keys: "\<forall>k\<in>set entries. lf \<notin> set k"
    and msgs: "\<forall>k\<in>set entries.
                 lf \<notin> set (goLookup messages k) \<and> quoteFree (goLookup messages k)"
    and out: "fs1 filePath = Contents out" and short: "\<not> scanErr out"
  shows "generateTOML canWrite entries messages filePath fs1 = Inr fs1"
proof -
  from first obtain existing where load0: "loadExistingTOML fs filePath = Inr existing"
    and cw: "canWrite filePath"
    and fs1: "fs1 = fs(filePath := Contents
           (concat (map (\<lambda>k. sprintfBlock k (translatedText existing messages k)) entries)))"
    by (rule generateTOML_Inr)
  let ?val = "translatedText existing messages"
  let ?render = "\<lambda>val. concat (map (\<lambda>k. sprintfBlock k (val k)) entries)"
  from fs1 out have outeq: "out = ?render ?val" by simp
  have val_cases: "\<And>k. (\<exists>v. existing k = Some v \<and> v \<noteq> [] \<and> ?val k = v)
                      \<or> ?val k = goLookup messages k"
    by (auto simp: translatedText_def goLookup_def split: option.splits)
  have val_ok: "lf \<notin> set (?val k) \<and> trimByte (?val k) dquote = ?val k"
    if "k \<in> set entries" for k
    using val_cases [of k] loadExistingTOML_values(2) [OF load0, of k] msgs that
      trimByte_quoteFree
    by auto
  have lfree: "\<forall>k\<in>set entries. lf \<notin> set k \<and> lf \<notin> set (?val k)"
    using keys val_ok by blast
  let ?existing1 = "\<lambda>k'. if k' \<in> set entries \<and> k' \<noteq> []
                         then Some (trimByte (?val k') dquote) else None"
  have load1: "loadExistingTOML fs1 filePath = Inr ?existing1"
    using out short lfree unfolding outeq by (rule loadExistingTOML_render)
  have same: "translatedText ?existing1 messages k = ?val k" if "k \<in> set entries" for k
  proof (cases "k = []")
    case True
    have "existing [] = None" using load0 by (rule loadExistingTOML_values(1))
    with True show ?thesis by (simp add: translatedText_def)
  next
    case False
    with that val_ok have e1: "?existing1 k = Some (?val k)" by simp
    show ?thesis
    proof (cases "?val k = []")
      case True
      with val_cases [of k] have "goLookup messages k = []" by auto
      with True e1 show ?thesis by (simp add: translatedText_def goLookup_def split: option.splits)
    next
      case False
      with e1 show ?thesis by (simp add: translatedText_def)
    qed
  qed
  then have "map (\<lambda>k. sprintfBlock k (translatedText ?existing1 messages k)) entries =
             map (\<lambda>k. sprintfBlock k (?val k)) entries"
    by simp
  then have "?render (translatedText ?existing1 messages) = out"
    unfolding outeq by (rule arg_cong)
  moreover have "generateTOML canWrite entries messages filePath fs1 =
      Inr (fs1(filePath := Contents (?render (translatedText ?existing1 messages))))"
    using load1 cw by (rule generateTOML_success)
  moreover have "fs1(filePath := Contents out) = fs1"
    using out by (simp add: fun_upd_idem)
  ultimately show ?thesis by simp
qed

text \<open>
  An instance: the first run of the instance of C2, followed by a second run on its output.
\<close>

theorem generateTOML_idempotent_witness:
  "generateTOML (\<lambda>_. True) [''invalid_input'', ''UNKNOWN'']
        [''invalid_input'' \<mapsto> ''must not be empty''] ''en.toml'' (\<lambda>_. NotExist)
     = Inr ((\<lambda>_. NotExist)(''en.toml'' := Contents
         (''[invalid_input]'' @ [lf] @ ''other = \"must not be empty\"'' @ [lf, lf]
          @ ''[UNKNOWN]'' @ [lf] @ ''other = \"\"'' @ [lf, lf])))
   \<and> generateTOML (\<lambda>_. True) [''invalid_input'', ''UNKNOWN'']
        [''invalid_input'' \<mapsto> ''must not be empty''] ''en.toml''
        ((\<lambda>_. NotExist)(''en.toml'' := Contents
         (''[invalid_input]'' @ [lf] @ ''other = \"must not be empty\"'' @ [lf, lf]
          @ ''[UNKNOWN]'' @ [lf] @ ''other = \"\"'' @ [lf, lf])))
     = Inr ((\<lambda>_. NotExist)(''en.toml'' := Contents
         (''[invalid_input]'' @ [lf] @ ''other = \"must not be empty\"'' @ [lf, lf]
          @ ''[UNKNOWN]'' @ [lf] @ ''other = \"\"'' @ [lf, lf])))"
proof -
  let ?K = "[''invalid_input'', ''UNKNOWN'']"
  let ?M = "[''invalid_input'' \<mapsto> ''must not be empty'']"
  let ?out = "''[invalid_input]'' @ [lf] @ ''other = \"must not be empty\"'' @ [lf, lf]
          @ ''[UNKNOWN]'' @ [lf] @ ''other = \"\"'' @ [lf, lf]"
  let ?fs1 = "(\<lambda>_ :: string. NotExist)(''en.toml'' := Contents ?out)"
  have first: "generateTOML (\<lambda>_. True) ?K ?M ''en.toml'' (\<lambda>_. NotExist) = Inr ?fs1"
    by (simp add: generateTOML_def loadExistingTOML_def string_eval)
  have keys: "\<forall>k\<in>set ?K. lf \<notin> set k" by (simp add: lf_def)
  have msgs: "\<forall>k\<in>set ?K. lf \<notin> set (goLookup ?M k) \<and> quoteFree (goLookup ?M k)"
    by (simp add: goLookup_def quoteFree_def lf_def dquote_def)
  have out: "?fs1 ''en.toml'' = Contents ?out" by simp
  have short: "\<not> scanErr ?out" by (simp add: scanErr_def maxScanTokenSize_def lf_def)
  show ?thesis
    by (rule conjI [OF first generateTOML_idempotent [OF first keys msgs out short]])
qed

text \<open>
  C8: when no file exists at the path, \<^verbatim>\<open>loadExistingTOML\<close> returns the empty mapping and
  no error.
\<close>

theorem loadExistingTOML_absent:
  "fs filePath = NotExist \<Longrightarrow> loadExistingTOML fs filePath = Inr Map.empty"
  by (simp add: loadExistingTOML_def)

theorem loadExistingTOML_absent_witness:
  "(\<lambda>_. NotExist) ''i18n/en.toml'' = NotExist
   \<and> loadExistingTOML (\<lambda>_. NotExist) ''i18n/en.toml'' = Inr Map.empty"
  using loadExistingTOML_absent [of "\<lambda>_. NotExist" "''i18n/en.toml''"] by simp

text \<open>
  C9: for a catalog file that can be read, the mapping \<^verbatim>\<open>loadExistingTOML\<close> returns gives
  every non-empty key \<open>k\<close> the value of the last \<^verbatim>\<open>other = \<close> line whose last preceding
  header is \<open>[k]\<close>, and nothing when there is no such line: a later line of a header, and
  a line under a later occurrence of the header, overwrites the earlier ones. The empty key
  of a header \<open>[]\<close> is never recorded.
\<close>

theorem loadExistingTOML_last_wins:
  assumes "fs filePath = Contents data" and "\<not> scanErr data"
  shows "\<exists>entries. loadExistingTOML fs filePath = Inr entries
           \<and> entries [] = None
           \<and> (\<forall>k. k \<noteq> [] \<longrightarrow> entries k =
                (if otherValuesUnder k [] (scanLines data) = [] then None
                 else Some (last (otherValuesUnder k [] (scanLines data)))))"
  using assms by (simp add: loadExistingTOML_def tomlLoop_empty_key tomlLoop_last)

text \<open>
  An instance: the header \<open>[a]\<close> occurs twice, the first time with two value lines. The
  values under \<open>[a]\<close> are \<open>1\<close>, \<open>2\<close>, \<open>3\<close> in this order, and the mapping holds \<open>3\<close>.
\<close>

theorem loadExistingTOML_last_wins_witness:
  "otherValuesUnder ''a'' []
     (scanLines (''[a]'' @ [lf] @ ''other = \"1\"'' @ [lf] @ ''other = \"2\"'' @ [lf]
        @ ''[b]'' @ [lf] @ ''other = \"x\"'' @ [lf] @ ''[a]'' @ [lf] @ ''other = \"3\"'' @ [lf]))
     = [''1'', ''2'', ''3'']
   \<and> (\<exists>entries. loadExistingTOML
        (\<lambda>_. Contents (''[a]'' @ [lf] @ ''other = \"1\"'' @ [lf] @ ''other = \"2\"'' @ [lf]
        @ ''[b]'' @ [lf] @ ''other = \"x\"'' @ [lf] @ ''[a]'' @ [lf] @ ''other = \"3\"'' @ [lf]))
        ''en.toml'' = Inr entries \<and> entries ''a'' = Some ''3'')"
proof -
  let ?data = "''[a]'' @ [lf] @ ''other = \"1\"'' @ [lf] @ ''other = \"2\"'' @ [lf]
        @ ''[b]'' @ [lf] @ ''other = \"x\"'' @ [lf] @ ''[a]'' @ [lf] @ ''other = \"3\"'' @ [lf]"
  have c: "(\<lambda>_ :: string. Contents ?data) ''en.toml'' = Contents ?data" by simp
  have short: "\<not> scanErr ?data" by (simp add: scanErr_def maxScanTokenSize_def lf_def)
  have vals: "otherValuesUnder ''a'' [] (scanLines ?data) = [''1'', ''2'', ''3'']"
    by (simp add: string_eval)
  from loadExistingTOML_last_wins [of "\<lambda>_. Contents ?data" "''en.toml''" ?data, OF c short]
  obtain entries
    where l: "loadExistingTOML (\<lambda>_. Contents ?data) ''en.toml'' = Inr entries"
      and v: "\<forall>k. k \<noteq> [] \<longrightarrow> entries k =
                (if otherValuesUnder k [] (scanLines ?data) = [] then None
                 else Some (last (otherValuesUnder k [] (scanLines ?data))))"
    by blast
  have "''a'' \<noteq> ([] :: string)" by simp
  with v have "entries ''a'' =
      (if otherValuesUnder ''a'' [] (scanLines ?data) = [] then None
       else Some (last (otherValuesUnder ''a'' [] (scanLines ?data))))"
    by blast
  then have "entries ''a'' = Some ''3''" by (simp only: vals) simp
  with l vals show ?thesis by blast
qed

section \<open>The key extractor and the aggregation loop\<close>

lemmas scan_eval =
  parseProto_def celMarker_def closesBlock_def quotedValue_def neutralLine_def

text \<open>
  C4: the aggregated Key list has no duplicates and lists the Keys of the files that parse in
  the order of their first occurrence (the concatenation of the per-file Key lists, each Key
  kept at its first position), and the aggregated Default-Message map gives every Key the
  Default Message it has in the first file that has the Key (the empty string when that file
  has none for it).
\<close>

theorem collectEntries_first_occurrence:
  assumes "collectEntries parser fs enumPrefix enumSuffix protoFiles =
             (allEntries, allMessages, seenEntries)"
  shows "distinct allEntries
       \<and> allEntries = rev (remdups (rev (concat (map fst
            (parsedFiles parser fs enumPrefix enumSuffix protoFiles)))))
       \<and> (\<forall>k\<in>set allEntries. allMessages k =
            Some (firstMessage (parsedFiles parser fs enumPrefix enumSuffix protoFiles) k))"
proof -
  let ?rs = "parsedFiles parser fs enumPrefix enumSuffix protoFiles"
  let ?start = "([], Map.empty, Map.empty) :: collected"
  have inv: "seenInv ?start" by (simp add: seenInv_def goLookupBool_def)
  have agg: "aggregate ?rs ?start = (allEntries, allMessages, seenEntries)"
    using assms by (simp add: collectEntries_def collectLoop_aggregate)
  from aggregate_result [OF inv, of ?rs] agg
  have ents: "allEntries = rev (remdups (rev (concat (map fst ?rs))))"
    and msgs: "\<And>k. allMessages k =
         (if k \<in> set (concat (map fst ?rs)) then Some (firstMessage ?rs k) else None)"
    by simp_all
  from ents have "distinct allEntries" by simp
  moreover from ents have "set allEntries = set (concat (map fst ?rs))" by simp
  ultimately show ?thesis using ents msgs by simp
qed

text \<open>
  An instance: \<open>a.proto\<close> has the enum fields \<open>UNKNOWN\<close>, \<open>NOT_FOUND\<close> and a validation
  rule \<open>invalid_input\<close> with the message \<open>must not be empty\<close>; \<open>b.proto\<close> has the enum
  fields \<open>NOT_FOUND\<close>, \<open>DENIED\<close> and a rule \<open>invalid_input\<close> with the message \<open>empty\<close>.
\<close>

theorem collectEntries_first_occurrence_witness:
  "collectEntries
     (\<lambda>data. if hasPrefix data ''A'' then Some [Enum ''ErrorCode'' [EnumField ''UNKNOWN'', EnumField ''NOT_FOUND'']]
             else Some [Enum ''Reason'' [EnumField ''NOT_FOUND'', EnumField ''DENIED'']])
     ((\<lambda>_. NotExist)
        (''a.proto'' := Contents (''A (buf.validate.field).cel = {'' @ [lf]
            @ ''id: \"invalid_input\"'' @ [lf] @ ''message: \"must not be empty\"'' @ [lf]
            @ ''}];'' @ [lf]),
         ''b.proto'' := Contents (''B (buf.validate.field).cel = {'' @ [lf]
            @ ''id: \"invalid_input\"'' @ [lf] @ ''message: \"empty\"'' @ [lf]
            @ ''}];'' @ [lf])))
     [] [] [''a.proto'', ''b.proto'']
   = ([''UNKNOWN'', ''NOT_FOUND'', ''invalid_input'', ''DENIED''],
      [''UNKNOWN'' \<mapsto> [], ''NOT_FOUND'' \<mapsto> [], ''invalid_input'' \<mapsto> ''must not be empty'',
       ''DENIED'' \<mapsto> []],
      [''UNKNOWN'' \<mapsto> True, ''NOT_FOUND'' \<mapsto> True, ''invalid_input'' \<mapsto> True,
       ''DENIED'' \<mapsto> True])
   \<and> distinct [''UNKNOWN'', ''NOT_FOUND'', ''invalid_input'', ''DENIED'']"
proof -
  let ?parser = "\<lambda>data. if hasPrefix data ''A''
             then Some [Enum ''ErrorCode'' [EnumField ''UNKNOWN'', EnumField ''NOT_FOUND'']]
             else Some [Enum ''Reason'' [EnumField ''NOT_FOUND'', EnumField ''DENIED'']]"
  let ?fs = "(\<lambda>_ :: string. NotExist)
        (''a.proto'' := Contents (''A (buf.validate.field).cel = {'' @ [lf]
            @ ''id: \"invalid_input\"'' @ [lf] @ ''message: \"must not be empty\"'' @ [lf]
            @ ''}];'' @ [lf]),
         ''b.proto'' := Contents (''B (buf.validate.field).cel = {'' @ [lf]
            @ ''id: \"invalid_input\"'' @ [lf] @ ''message: \"empty\"'' @ [lf]
            @ ''}];'' @ [lf]))"
  let ?E = "[''UNKNOWN'', ''NOT_FOUND'', ''invalid_input'', ''DENIED'']"
  let ?M = "[''UNKNOWN'' \<mapsto> [], ''NOT_FOUND'' \<mapsto> [], ''invalid_input'' \<mapsto> ''must not be empty'',
       ''DENIED'' \<mapsto> []]"
  let ?S = "[''UNKNOWN'' \<mapsto> True, ''NOT_FOUND'' \<mapsto> True, ''invalid_input'' \<mapsto> True,
       ''DENIED'' \<mapsto> True]"
  have pa: "parseProto ?parser ?fs ''a.proto'' [] [] =
      Inr ([''UNKNOWN'', ''NOT_FOUND'', ''invalid_input''],
           [''invalid_input'' \<mapsto> ''must not be empty''])"
    by (simp add: scan_eval string_eval enumHandler_def)
  have pb: "parseProto ?parser ?fs ''b.proto'' [] [] =
      Inr ([''NOT_FOUND'', ''DENIED'', ''invalid_input''], [''invalid_input'' \<mapsto> ''empty''])"
    by (simp add: scan_eval string_eval enumHandler_def)
  have run: "collectEntries ?parser ?fs [] [] [''a.proto'', ''b.proto''] = (?E, ?M, ?S)"
    by (simp only: collectEntries_def collectLoop.simps pa pb sum.case prod.case)
       (simp add: goLookupBool_def goLookup_def)
  from collectEntries_first_occurrence [OF run] have "distinct ?E" by (rule conjunct1)
  with run show ?thesis by (rule conjI)
qed

text \<open>
  C5: the Key list of a file that parses starts with the field names, in declaration order,
  of exactly those enums of the declaration tree, in the order of the walk, whose names
  satisfy the prefix filter and the suffix filter; the identifiers of the raw-text scan
  follow. An empty filter is always satisfied: with the suffix filter \<open>Error\<close> and no prefix
  filter, \<open>FooError\<close> is included and \<open>FooStatus\<close> is not, and with both filters empty
  every enum is included.
\<close>

theorem parseProto_enum_filter:
  assumes "parseProto parser fs filePath enumPrefix enumSuffix = Inr (entries, messages)"
  shows "(\<exists>data definition. fs filePath = Contents data \<and> parser data = Some definition
            \<and> entries = enumKeys enumPrefix enumSuffix definition
                          @ fst (scanOuter (scanLines data) [] Map.empty))
       \<and> satisfiesFilters [] ''Error'' ''FooError''
       \<and> \<not> satisfiesFilters [] ''Error'' ''FooStatus''
       \<and> satisfiesFilters [] [] name"
proof -
  from assms obtain data tree where d: "fs filePath = Contents data"
      and p: "parser data = Some tree"
      and r: "scanOuter (scanLines data) (walk enumPrefix enumSuffix tree []) Map.empty
                = (entries, messages)"
    by (auto simp: parseProto_def split: fileState.splits option.splits if_splits)
  have "scanOuter (scanLines data) (walk enumPrefix enumSuffix tree []) Map.empty =
      (walk enumPrefix enumSuffix tree [] @ fst (scanOuter (scanLines data) [] Map.empty),
       Map.empty ++ snd (scanOuter (scanLines data) [] Map.empty))"
    by (rule scanOuter_acc)
  with r have "entries = enumKeys enumPrefix enumSuffix tree
                          @ fst (scanOuter (scanLines data) [] Map.empty)"
    by (simp add: walk_enumKeys)
  with d p have "\<exists>data definition. fs filePath = Contents data \<and> parser data = Some definition
            \<and> entries = enumKeys enumPrefix enumSuffix definition
                          @ fst (scanOuter (scanLines data) [] Map.empty)"
    by blast
  moreover have "satisfiesFilters [] ''Error'' ''FooError''"
    by (simp add: satisfiesFilters_def hasSuffix_def)
  moreover have "\<not> satisfiesFilters [] ''Error'' ''FooStatus''"
    by (simp add: satisfiesFilters_def hasSuffix_def)
  moreover have "satisfiesFilters [] [] name"
    by (simp add: satisfiesFilters_def)
  ultimately show ?thesis by blast
qed

text \<open>
  An instance with the suffix filter \<open>Error\<close>: the tree has the enums \<open>FooError\<close>,
  \<open>FooStatus\<close> and, nested in a message, \<open>BarError\<close>; the fields of the first and the
  third are the Keys.
\<close>

theorem parseProto_enum_filter_witness:
  "parseProto
     (\<lambda>_. Some [Enum ''FooError'' [EnumField ''NOT_FOUND''],
                 Enum ''FooStatus'' [EnumField ''ACTIVE''],
                 Container [Leaf, Enum ''BarError'' [EnumField ''DENIED'', Leaf, EnumField ''EXPIRED'']]])
     (\<lambda>_. Contents ''syntax = 3;'') ''a.proto'' [] ''Error''
     = Inr ([''NOT_FOUND'', ''DENIED'', ''EXPIRED''], Map.empty)
   \<and> enumKeys [] ''Error''
        [Enum ''FooError'' [EnumField ''NOT_FOUND''],
         Enum ''FooStatus'' [EnumField ''ACTIVE''],
         Container [Leaf, Enum ''BarError'' [EnumField ''DENIED'', Leaf, EnumField ''EXPIRED'']]]
     = [''NOT_FOUND'', ''DENIED'', ''EXPIRED'']"
proof -
  let ?tree = "[Enum ''FooError'' [EnumField ''NOT_FOUND''],
                 Enum ''FooStatus'' [EnumField ''ACTIVE''],
                 Container [Leaf, Enum ''BarError'' [EnumField ''DENIED'', Leaf, EnumField ''EXPIRED'']]]"
  have run: "parseProto (\<lambda>_. Some ?tree) (\<lambda>_. Contents ''syntax = 3;'') ''a.proto'' [] ''Error''
      = Inr ([''NOT_FOUND'', ''DENIED'', ''EXPIRED''], Map.empty)"
    by (simp add: scan_eval string_eval enumHandler_def)
  from parseProto_enum_filter [OF run, of "[]"]
  have "[''NOT_FOUND'', ''DENIED'', ''EXPIRED''] =
      enumKeys [] ''Error'' ?tree @ fst (scanOuter (scanLines ''syntax = 3;'') [] Map.empty)"
    by simp
  moreover have "fst (scanOuter (scanLines ''syntax = 3;'') [] Map.empty) = []"
    by (simp add: scan_eval string_eval)
  ultimately have "enumKeys [] ''Error'' ?tree = [''NOT_FOUND'', ''DENIED'', ''EXPIRED'']"
    by simp
  with run show ?thesis by (rule conjI)
qed

text \<open>
  C6, as stated: whenever the raw text has a marker line followed by the lines
  \<^verbatim>\<open>id: "invalid_input"\<close> and \<^verbatim>\<open>message: "must not be empty"\<close> before the closing line,
  the scan yields the Key \<open>invalid_input\<close> with the Default Message \<open>must not be empty\<close>.
  This fails in two ways. In the first file the marker stands on the line that closes the
  preceding block: the inner loop consumes that line as a closing line, the outer loop
  resumes at the next line, and the identifier is never extracted. In the second file a
  later block has the same identifier and no message: when it closes, the empty message
  replaces the recorded one.
\<close>

theorem parseProto_validation_block_counterexample:
  "scanLines (''string a = 1 [(buf.validate.field).cel = {'' @ [lf]
        @ ''id: \"first\"'' @ [lf]
        @ ''}, (buf.validate.field).cel = {'' @ [lf]
        @ ''id: \"invalid_input\"'' @ [lf]
        @ ''message: \"must not be empty\"'' @ [lf]
        @ ''}];'' @ [lf])
     = [''string a = 1 [(buf.validate.field).cel = {'', ''id: \"first\"'',
        ''}, (buf.validate.field).cel = {'', ''id: \"invalid_input\"'',
        ''message: \"must not be empty\"'', ''}];'']
   \<and> parseProto (\<lambda>_. Some [])
       (\<lambda>_. Contents (''string a = 1 [(buf.validate.field).cel = {'' @ [lf]
        @ ''id: \"first\"'' @ [lf]
        @ ''}, (buf.validate.field).cel = {'' @ [lf]
        @ ''id: \"invalid_input\"'' @ [lf]
        @ ''message: \"must not be empty\"'' @ [lf]
        @ ''}];'' @ [lf])) ''a.proto'' [] []
     = Inr ([''first''], [''first'' \<mapsto> []])
   \<and> parseProto (\<lambda>_. Some [])
       (\<lambda>_. Contents (''string a = 1 [(buf.validate.field).cel = {'' @ [lf]
        @ ''id: \"invalid_input\"'' @ [lf]
        @ ''message: \"must not be empty\"'' @ [lf]
        @ ''}];'' @ [lf]
        @ ''string b = 2 [(buf.validate.field).cel = {'' @ [lf]
        @ ''id: \"invalid_input\"'' @ [lf]
        @ ''}];'' @ [lf])) ''b.proto'' [] []
     = Inr ([''invalid_input'', ''invalid_input''], [''invalid_input'' \<mapsto> []])"
  by (simp add: scan_eval string_eval)

text \<open>
  C6, amended: let the file parse and have no line beyond the scanner's token limit. Let its
  lines contain a marker line that the outer loop reads (the scan of the lines before it ends
  outside a block) or that does not itself begin with a closing token; then, among lines that
  are neither \<^verbatim>\<open>id:\<close> nor \<^verbatim>\<open>message:\<close> nor closing lines, the line
  \<^verbatim>\<open>id: "invalid_input"\<close>, later the line \<^verbatim>\<open>message: "must not be empty"\<close>, later a
  closing line; and let the scan of the lines after that closing line not extract
  \<open>invalid_input\<close> again. Then \<^verbatim>\<open>parseProto\<close> succeeds, \<open>invalid_input\<close> is in the Key
  list and its Default Message is \<open>must not be empty\<close>.
\<close>

theorem parseProto_validation_block:
  assumes "fs filePath = Contents data" and "parser data = Some definition"
    and "\<not> scanErr data"
    and "scanLines data =
           pre @ marker # mid1 @ idLine # mid2 @ msgLine # mid3 @ closing # post"
    and "containsStr marker celMarker"
    and "endsOutsideBlock pre \<or> \<not> closesBlock (trimSpace marker)"
    and "list_all neutralLine (mid1 @ mid2 @ mid3)"
    and "trimSpace idLine = ''id: \"invalid_input\"''"
    and "trimSpace msgLine = ''message: \"must not be empty\"''"
    and "closesBlock (trimSpace closing)"
    and "''invalid_input'' \<notin> set (fst (scanOuter post [] Map.empty))"
  shows "\<exists>entries messages.
           parseProto parser fs filePath enumPrefix enumSuffix = Inr (entries, messages)
         \<and> ''invalid_input'' \<in> set entries
         \<and> messages ''invalid_input'' = Some ''must not be empty''"
proof -
  let ?k = "''invalid_input''" and ?d = "''must not be empty''"
  let ?block = "mid1 @ idLine # mid2 @ msgLine # mid3 @ closing # post"
  let ?es0 = "walk enumPrefix enumSuffix definition []"
  obtain i m es ms where
    "scanOuter (pre @ marker # ?block) ?es0 Map.empty = scanInner ?block i m es ms"
    using scan_enters_block [OF assms(5,6), where rest = "?block"] by blast
  then have run: "scanOuter (scanLines data) ?es0 Map.empty =
      scanOuter post (es @ [?k]) (ms(?k \<mapsto> ?d))"
    using scanInner_block [OF assms(7-10)] assms(4) by simp
  have acc: "scanOuter post (es @ [?k]) (ms(?k \<mapsto> ?d)) =
      ((es @ [?k]) @ fst (scanOuter post [] Map.empty),
       ms(?k \<mapsto> ?d) ++ snd (scanOuter post [] Map.empty))"
    by (rule scanOuter_acc)
  have "snd (scanOuter post [] Map.empty) ?k = None"
    using scanOuter_untouched [OF assms(11)] by simp
  then have msg: "(ms(?k \<mapsto> ?d) ++ snd (scanOuter post [] Map.empty)) ?k = Some ?d"
    by (simp add: map_add_def)
  have "parseProto parser fs filePath enumPrefix enumSuffix =
      Inr ((es @ [?k]) @ fst (scanOuter post [] Map.empty),
           ms(?k \<mapsto> ?d) ++ snd (scanOuter post [] Map.empty))"
    using assms(1-3) run acc by (simp add: parseProto_def)
  with msg show ?thesis by simp
qed

text \<open>
  An instance: a field of a message with one rule; the block has an \<^verbatim>\<open>expression:\<close> line
  after the message.
\<close>

theorem parseProto_validation_block_witness:
  "\<exists>entries messages.
     parseProto (\<lambda>_. Some [])
       (\<lambda>_. Contents (''message Req {'' @ [lf]
          @ ''  string name = 1 [(buf.validate.field).cel = {'' @ [lf]
          @ ''    id: \"invalid_input\"'' @ [lf]
          @ ''    message: \"must not be empty\"'' @ [lf]
          @ ''    expression: \"size(this) > 0\"'' @ [lf]
          @ ''  }];'' @ [lf]
          @ ''}'' @ [lf])) ''a.proto'' [] []
       = Inr (entries, messages)
     \<and> ''invalid_input'' \<in> set entries
     \<and> messages ''invalid_input'' = Some ''must not be empty''"
proof -
  let ?data = "''message Req {'' @ [lf]
          @ ''  string name = 1 [(buf.validate.field).cel = {'' @ [lf]
          @ ''    id: \"invalid_input\"'' @ [lf]
          @ ''    message: \"must not be empty\"'' @ [lf]
          @ ''    expression: \"size(this) > 0\"'' @ [lf]
          @ ''  }];'' @ [lf]
          @ ''}'' @ [lf]"
  let ?marker = "''  string name = 1 [(buf.validate.field).cel = {''"
  let ?idLine = "''    id: \"invalid_input\"''"
  let ?msgLine = "''    message: \"must not be empty\"''"
  let ?expr = "''    expression: \"size(this) > 0\"''"
  let ?closing = "''  }];''"
  have h1: "(\<lambda>_ :: string. Contents ?data) ''a.proto'' = Contents ?data" by simp
  have h2: "(\<lambda>_ :: string. Some ([] :: visitee list)) ?data = Some []" by simp
  have h3: "\<not> scanErr ?data" by (simp add: scanErr_def maxScanTokenSize_def lf_def)
  have h4: "scanLines ?data =
      [''message Req {''] @ ?marker # [] @ ?idLine # [] @ ?msgLine # [?expr] @ ?closing # [''}'']"
    by (simp add: string_eval)
  have h5: "containsStr ?marker celMarker" by (simp add: celMarker_def hasPrefix_def)
  have h6: "endsOutsideBlock [''message Req {''] \<or> \<not> closesBlock (trimSpace ?marker)"
    by (simp add: celMarker_def hasPrefix_def)
  have h7: "list_all neutralLine ([] @ [] @ [?expr])" by (simp add: scan_eval string_eval)
  have h8: "trimSpace ?idLine = ''id: \"invalid_input\"''" by (simp add: string_eval)
  have h9: "trimSpace ?msgLine = ''message: \"must not be empty\"''" by (simp add: string_eval)
  have h10: "closesBlock (trimSpace ?closing)" by (simp add: scan_eval string_eval)
  have h11: "''invalid_input'' \<notin> set (fst (scanOuter [''}''] [] Map.empty))"
    by (simp add: celMarker_def hasPrefix_def)
  show ?thesis
    by (rule parseProto_validation_block
        [of "\<lambda>_. Contents ?data" "''a.proto''" ?data "\<lambda>_. Some []" "[]"
            "[''message Req {'']" ?marker "[]" ?idLine "[]" ?msgLine "[?expr]" ?closing "[''}'']"
            "[]" "[]",
         OF h1 h2 h3 h4 h5 h6 h7 h8 h9 h10 h11])
qed

text \<open>
  C7: when a file cannot be opened or the parser reports an error for it, \<^verbatim>\<open>parseProto\<close>
  returns an error, and the aggregation loop gives the same result as without that file: the
  file contributes no Key and no Default Message, and the files after it are processed.
\<close>

theorem collectLoop_skips_failed_file:
  assumes "fs protoFile = NotExist \<or> fs protoFile = Unreadable
           \<or> (\<exists>data. fs protoFile = Contents data \<and> parser data = None)"
  shows "(\<exists>err. parseProto parser fs protoFile enumPrefix enumSuffix = Inl err)
       \<and> collectLoop parser fs enumPrefix enumSuffix (before @ protoFile # after) acc =
           collectLoop parser fs enumPrefix enumSuffix (before @ after) acc"
proof -
  from assms obtain err where e: "parseProto parser fs protoFile enumPrefix enumSuffix = Inl err"
    by (auto simp: parseProto_def)
  have "collectLoop parser fs enumPrefix enumSuffix (before @ protoFile # after) acc =
           collectLoop parser fs enumPrefix enumSuffix (before @ after) acc"
    using e by (induction before arbitrary: acc) (simp_all split: sum.splits)
  with e show ?thesis by blast
qed

text \<open>
  An instance: \<open>missing.proto\<close> does not exist, \<open>a.proto\<close> has one enum; the run over both
  files collects the Keys of \<open>a.proto\<close>.
\<close>

theorem collectLoop_skips_failed_file_witness:
  "parseProto (\<lambda>_. Some [Enum ''ErrorCode'' [EnumField ''UNKNOWN'']])
     ((\<lambda>_. NotExist)(''a.proto'' := Contents ''syntax = 3;'')) ''missing.proto'' [] []
     = Inl OpenProtoFile
   \<and> collectLoop (\<lambda>_. Some [Enum ''ErrorCode'' [EnumField ''UNKNOWN'']])
       ((\<lambda>_. NotExist)(''a.proto'' := Contents ''syntax = 3;'')) [] []
       [''missing.proto'', ''a.proto''] ([], Map.empty, Map.empty)
     = ([''UNKNOWN''], [''UNKNOWN'' \<mapsto> []], [''UNKNOWN'' \<mapsto> True])"
proof -
  let ?parser = "\<lambda>_ :: string. Some [Enum ''ErrorCode'' [EnumField ''UNKNOWN'']]"
  let ?fs = "(\<lambda>_ :: string. NotExist)(''a.proto'' := Contents ''syntax = 3;'')"
  let ?start = "([], Map.empty, Map.empty) :: collected"
  have missing: "?fs ''missing.proto'' = NotExist \<or> ?fs ''missing.proto'' = Unreadable
      \<or> (\<exists>data. ?fs ''missing.proto'' = Contents data \<and> ?parser data = None)"
    by simp
  have fails: "parseProto ?parser ?fs ''missing.proto'' [] [] = Inl OpenProtoFile"
    by (simp add: parseProto_def)
  have pa: "parseProto ?parser ?fs ''a.proto'' [] [] = Inr ([''UNKNOWN''], Map.empty)"
    by (simp add: scan_eval string_eval enumHandler_def)
  have rest: "collectLoop ?parser ?fs [] [] ([] @ [''a.proto'']) ?start =
      ([''UNKNOWN''], [''UNKNOWN'' \<mapsto> []], [''UNKNOWN'' \<mapsto> True])"
    by (simp only: append_Nil collectLoop.simps pa sum.case prod.case)
       (simp add: goLookupBool_def goLookup_def)
  from collectLoop_skips_failed_file
    [of ?fs "''missing.proto''" ?parser "[]" "[]" "[]" "[''a.proto'']" ?start, OF missing]
  have "collectLoop ?parser ?fs [] [] ([] @ ''missing.proto'' # [''a.proto'']) ?start =
      collectLoop ?parser ?fs [] [] ([] @ [''a.proto'']) ?start"
    by (rule conjunct2)
  then have "collectLoop ?parser ?fs [] [] [''missing.proto'', ''a.proto''] ?start =
      collectLoop ?parser ?fs [] [] ([] @ [''a.proto'']) ?start"
    by (simp only: append_Nil)
  also note rest
  finally show ?thesis using fails by (intro conjI)
qed



end
